theory Spec2Isabelle
  imports Main "HOL-Library.AList"
begin

section \<open>Error classifier (src/core/ErrorClassifier.ts)\<close>

subsection \<open>Regular expressions of the rule table\<close>

text \<open>
  The rule table of the classifier is a list of JavaScript regular expressions. Only the
  truth value of \<open>pattern.exec(s)\<close> decides the category, so a pattern is modelled by its
  language and \<open>exec\<close> by an unanchored search. The patterns of the table use literals,
  \<open>.\<close>, \<open>\s\<close>, \<open>\d\<close>, grouping, alternation, \<open>*\<close>, \<open>+\<close>, \<open>?\<close> and bounded repetition
  only, for which a backtracking matcher finds a match exactly when some substring is in
  the language. Characters are bytes; \<open>\s\<close> is the ASCII white space.
\<close>

datatype rx =
    Null
  | Eps
  | Lit char
  | Dot
  | Space
  | Digit
  | Seq rx rx
  | Alt rx rx
  | Star rx

definition Plus :: "rx \<Rightarrow> rx" where
  "Plus r = Seq r (Star r)"

definition Opt :: "rx \<Rightarrow> rx" where
  "Opt r = Alt r Eps"

fun lit :: "string \<Rightarrow> rx" where
  "lit [] = Eps"
| "lit (c # cs) = Seq (Lit c) (lit cs)"

fun seqs :: "rx list \<Rightarrow> rx" where
  "seqs [] = Eps"
| "seqs (r # rs) = Seq r (seqs rs)"

fun alts :: "rx list \<Rightarrow> rx" where
  "alts [] = Null"
| "alts [r] = r"
| "alts (r # rs) = Alt r (alts rs)"

definition is_upper :: "char \<Rightarrow> bool" where
  "is_upper c = (65 \<le> (of_char c :: nat) \<and> (of_char c :: nat) \<le> 90)"

definition to_lower :: "char \<Rightarrow> char" where
  "to_lower c = (if is_upper c then char_of ((of_char c :: nat) + 32) else c)"

definition toLowerCase :: "string \<Rightarrow> string" where
  "toLowerCase s = map to_lower s"

definition is_space :: "char \<Rightarrow> bool" where
  "is_space c = ((of_char c :: nat) \<in> {9, 10, 11, 12, 13, 32})"

definition is_digit :: "char \<Rightarrow> bool" where
  "is_digit c = (48 \<le> (of_char c :: nat) \<and> (of_char c :: nat) \<le> 57)"

definition is_line_terminator :: "char \<Rightarrow> bool" where
  "is_line_terminator c = ((of_char c :: nat) \<in> {10, 13})"

fun nullable :: "rx \<Rightarrow> bool" where
  "nullable Null = False"
| "nullable Eps = True"
| "nullable (Lit c) = False"
| "nullable Dot = False"
| "nullable Space = False"
| "nullable Digit = False"
| "nullable (Seq r s) = (nullable r \<and> nullable s)"
| "nullable (Alt r s) = (nullable r \<or> nullable s)"
| "nullable (Star r) = True"

definition mkSeq :: "rx \<Rightarrow> rx \<Rightarrow> rx" where
  "mkSeq r s = (if r = Null \<or> s = Null then Null else if r = Eps then s else Seq r s)"

definition mkAlt :: "rx \<Rightarrow> rx \<Rightarrow> rx" where
  "mkAlt r s = (if r = Null then s else if s = Null then r else if r = s then r else Alt r s)"

text \<open>The derivative of a pattern by one character; \<open>ci\<close> is the \<open>i\<close> flag.\<close>

fun deriv :: "bool \<Rightarrow> char \<Rightarrow> rx \<Rightarrow> rx" where
  "deriv ci c Null = Null"
| "deriv ci c Eps = Null"
| "deriv ci c (Lit d) =
     (if (if ci then to_lower c = to_lower d else c = d) then Eps else Null)"
| "deriv ci c Dot = (if is_line_terminator c then Null else Eps)"
| "deriv ci c Space = (if is_space c then Eps else Null)"
| "deriv ci c Digit = (if is_digit c then Eps else Null)"
| "deriv ci c (Seq r s) =
     (if nullable r then mkAlt (mkSeq (deriv ci c r) s) (deriv ci c s)
      else mkSeq (deriv ci c r) s)"
| "deriv ci c (Alt r s) = mkAlt (deriv ci c r) (deriv ci c s)"
| "deriv ci c (Star r) = mkSeq (deriv ci c r) (Star r)"

text \<open>Some prefix of the string is in the language of the pattern.\<close>

fun match_prefix :: "bool \<Rightarrow> rx \<Rightarrow> string \<Rightarrow> bool" where
  "match_prefix ci r [] = nullable r"
| "match_prefix ci r (c # cs) =
     (if nullable r then True
      else if r = Null then False
      else match_prefix ci (deriv ci c r) cs)"

text \<open>\<open>pattern.exec(s)\<close> is not null: the pattern matches at some position of the string.\<close>

fun rx_exec :: "bool \<Rightarrow> rx \<Rightarrow> string \<Rightarrow> bool" where
  "rx_exec ci r [] = nullable r"
| "rx_exec ci r (c # cs) = (if match_prefix ci r (c # cs) then True else rx_exec ci r cs)"

record regexp =
  ignoreCase :: bool
  body :: rx

definition re :: "rx \<Rightarrow> regexp" where
  "re r = \<lparr>ignoreCase = False, body = r\<rparr>"

definition rei :: "rx \<Rightarrow> regexp" where
  "rei r = \<lparr>ignoreCase = True, body = r\<rparr>"

definition exec :: "regexp \<Rightarrow> string \<Rightarrow> bool" where
  "exec p s = rx_exec (ignoreCase p) (body p) s"

subsection \<open>The rule table and classify\<close>

datatype ErrorCategory =
    CatSyntax | CatType | CatImport | CatRuntime | CatAssertion | CatTimeout
  | CatPermission | CatResource | CatNetwork | CatUnknown

record ErrorPattern =
  category :: ErrorCategory
  patterns :: "regexp list"

definition quote :: char where
  "quote = CHR 0x27"

definition any1 :: rx where
  "any1 = Plus Dot"

definition ERROR_PATTERNS :: "ErrorPattern list" where
  "ERROR_PATTERNS = [
    \<lparr>category = CatSyntax, patterns = [
       rei (seqs [lit ''SyntaxError:'', Star Space, any1]),
       rei (lit ''Unexpected token''),
       rei (lit ''Parsing error''),
       re (seqs [lit ''error TS1'', Digit, Digit, Digit, lit '':''])]\<rparr>,
    \<lparr>category = CatType, patterns = [
       rei (seqs [lit ''TypeError:'', Star Space, any1]),
       re (seqs [lit ''error TS2'', Digit, Digit, Digit, lit '':'']),
       re (seqs [lit ''Type '', Lit quote, any1, Lit quote, lit '' is not assignable to type '',
                 Lit quote, any1, Lit quote]),
       re (seqs [lit ''Property '', Lit quote, any1, Lit quote, lit '' does not exist on type'']),
       re (seqs [lit ''Cannot find name '', Lit quote, any1, Lit quote])]\<rparr>,
    \<lparr>category = CatImport, patterns = [
       re (seqs [lit ''Cannot find module '', Lit quote, any1, Lit quote]),
       rei (lit ''Module not found''),
       re (lit ''Error [ERR_MODULE_NOT_FOUND]''),
       rei (lit ''Unable to resolve module''),
       rei (seqs [lit ''No such file or directory'', Star Dot, lit ''import''])]\<rparr>,
    \<lparr>category = CatRuntime, patterns = [
       rei (seqs [lit ''ReferenceError:'', Star Space, any1]),
       rei (seqs [lit ''RangeError:'', Star Space, any1]),
       rei (seqs [lit ''Error:'', Star Space, any1, lit '' is not defined'']),
       rei (lit ''Maximum call stack size exceeded''),
       rei (lit ''undefined is not a function''),
       rei (lit ''null is not an object'')]\<rparr>,
    \<lparr>category = CatAssertion, patterns = [
       re (seqs [lit ''expect('', any1, lit '').'', Opt (lit ''not.''), lit ''to'',
                 alts [lit ''Be'', lit ''Equal'', lit ''Have'', lit ''Match'', lit ''Throw'']]),
       rei (lit ''AssertionError''),
       rei (seqs [lit ''Expected'', Opt (lit '':''), Star Space, any1, Star Space,
                  lit ''Received'', Opt (lit '':''), Star Space, any1]),
       rei (seqs [lit ''expected '', any1, lit '' to '',
                  alts [lit ''equal'', lit ''be'', lit ''match'', lit ''throw'']]),
       re (seqs [lit ''FAIL'', Plus Space, any1, lit ''.test.'', alts [lit ''ts'', lit ''js'']])]\<rparr>,
    \<lparr>category = CatTimeout, patterns = [
       rei (lit ''Timeout''),
       rei (lit ''exceeded timeout''),
       rei (lit ''ETIMEDOUT''),
       rei (lit ''Async callback was not invoked within''),
       rei (seqs [lit ''Test timeout of '', Plus Digit, lit ''ms exceeded''])]\<rparr>,
    \<lparr>category = CatPermission, patterns = [
       re (lit ''EACCES''),
       rei (lit ''Permission denied''),
       re (lit ''EPERM''),
       rei (lit ''Operation not permitted'')]\<rparr>,
    \<lparr>category = CatResource, patterns = [
       re (lit ''ENOENT''),
       rei (lit ''No such file or directory''),
       re (lit ''ENOTDIR''),
       rei (lit ''File not found''),
       rei (lit ''Directory not found'')]\<rparr>,
    \<lparr>category = CatNetwork, patterns = [
       re (lit ''ECONNREFUSED''),
       re (lit ''ENOTFOUND''),
       re (lit ''getaddrinfo''),
       rei (lit ''network error''),
       rei (lit ''socket hang up''),
       re (lit ''ECONNRESET'')]\<rparr>]"

record ClassifiedError =
  ce_category :: ErrorCategory
  originalError :: string

text \<open>
  The two nested loops of \<open>classify\<close>: the rules in declared order, the patterns of a rule
  in declared order, each pattern tried on the raw output and then on the lower-cased
  output; the first pattern that matches returns the category of its rule.
\<close>

fun first_pattern :: "regexp list \<Rightarrow> string \<Rightarrow> string \<Rightarrow> bool" where
  "first_pattern [] stderr normalizedStderr = False"
| "first_pattern (p # ps) stderr normalizedStderr =
     (if exec p stderr \<or> exec p normalizedStderr then True
      else first_pattern ps stderr normalizedStderr)"

fun scan_rules :: "ErrorPattern list \<Rightarrow> string \<Rightarrow> string \<Rightarrow> ErrorCategory" where
  "scan_rules [] stderr normalizedStderr = CatUnknown"
| "scan_rules (e # es) stderr normalizedStderr =
     (if first_pattern (patterns e) stderr normalizedStderr then category e
      else scan_rules es stderr normalizedStderr)"

definition classify :: "string \<Rightarrow> int \<Rightarrow> ClassifiedError" where
  "classify stderr exitCode =
     \<lparr>ce_category = scan_rules ERROR_PATTERNS stderr (toLowerCase stderr),
      originalError = stderr\<rparr>"

definition s7_stderr :: string where
  "s7_stderr = ''TypeError: Cannot read property '' @ [quote] @ ''x'' @ [quote] @ '' of undefined''"

section \<open>State store (dist/core/StateManager.js)\<close>

subsection \<open>JavaScript values\<close>

text \<open>
  The state store handles execution states as plain JavaScript objects: it spreads them,
  serialises them with \<open>JSON.stringify\<close> and gets them back from \<open>JSON.parse\<close> untyped.
  Values are therefore modelled dynamically. An object is the list of its own properties in
  insertion order; numbers are the integers; a \<open>Date\<close> is its time value in milliseconds,
  \<open>None\<close> for an invalid date.
\<close>

datatype jsval =
    JUndefined
  | JNull
  | JBool bool
  | JNum int
  | JStr string
  | JDate "int option"
  | JArr "jsval list"
  | JObj "(string \<times> jsval) list"

text \<open>
  The \<open>Date\<close> library is not part of the repository and is taken as a parameter: the
  rendering \<open>toISOString\<close> of a valid time value, the constructor \<open>new Date(v)\<close> and the
  string conversion of a date.
\<close>

record DateLib =
  toISOString :: "int \<Rightarrow> string"
  newDate :: "jsval \<Rightarrow> int option"
  dateToString :: "int option \<Rightarrow> string"

definition digit_char :: "nat \<Rightarrow> char" where
  "digit_char n = (if n < 10 then char_of (48 + n) else char_of (87 + n))"

fun show_nat :: "nat \<Rightarrow> string" where
  "show_nat n = (if n < 10 then [digit_char n] else show_nat (n div 10) @ [digit_char (n mod 10)])"

declare show_nat.simps [simp del]



definition show_int :: "int \<Rightarrow> string" where
  "show_int i = (if i < 0 then ''-'' @ show_nat (nat (- i)) else show_nat (nat i))"

fun enumerate_from :: "nat \<Rightarrow> 'a list \<Rightarrow> (string \<times> 'a) list" where
  "enumerate_from i [] = []"
| "enumerate_from i (x # xs) = (show_nat i, x) # enumerate_from (Suc i) xs"

text \<open>Property read \<open>v.k\<close>: a TypeError (\<open>None\<close>) on \<open>undefined\<close> and \<open>null\<close>.\<close>

definition own_prop :: "(string \<times> jsval) list \<Rightarrow> string \<Rightarrow> jsval" where
  "own_prop ps k = (case map_of ps k of None \<Rightarrow> JUndefined | Some v \<Rightarrow> v)"

fun js_get :: "jsval \<Rightarrow> string \<Rightarrow> jsval option" where
  "js_get JUndefined k = None"
| "js_get JNull k = None"
| "js_get (JObj ps) k = Some (own_prop ps k)"
| "js_get v k = Some JUndefined"

text \<open>The own enumerable properties that an object spread \<open>{...v}\<close> copies.\<close>

fun spread :: "jsval \<Rightarrow> (string \<times> jsval) list" where
  "spread (JObj ps) = ps"
| "spread (JArr xs) = enumerate_from 0 xs"
| "spread (JStr s) = enumerate_from 0 (map (\<lambda>c. JStr [c]) s)"
| "spread v = []"

text \<open>An object literal \<open>{...v, k: x}\<close>: an existing key keeps its place, a new one is appended.\<close>

definition with_prop :: "string \<Rightarrow> jsval \<Rightarrow> (string \<times> jsval) list \<Rightarrow> (string \<times> jsval) list" where
  "with_prop k x ps = AList.update k x ps"

fun truthy :: "jsval \<Rightarrow> bool" where
  "truthy JUndefined = False"
| "truthy JNull = False"
| "truthy (JBool b) = b"
| "truthy (JNum n) = (n \<noteq> 0)"
| "truthy (JStr s) = (s \<noteq> [])"
| "truthy v = True"

fun join_with :: "string \<Rightarrow> string list \<Rightarrow> string" where
  "join_with sep [] = []"
| "join_with sep [x] = x"
| "join_with sep (x # xs) = x @ sep @ join_with sep xs"

text \<open>The string conversion of a template literal \<open>`${v}`\<close>.\<close>

fun ToString :: "DateLib \<Rightarrow> jsval \<Rightarrow> string"
and ToString_elems :: "DateLib \<Rightarrow> jsval list \<Rightarrow> string list" where
  "ToString L JUndefined = ''undefined''"
| "ToString L JNull = ''null''"
| "ToString L (JBool b) = (if b then ''true'' else ''false'')"
| "ToString L (JNum n) = show_int n"
| "ToString L (JStr s) = s"
| "ToString L (JDate d) = dateToString L d"
| "ToString L (JArr xs) = join_with '','' (ToString_elems L xs)"
| "ToString L (JObj ps) = ''[object Object]''"
| "ToString_elems L [] = []"
| "ToString_elems L (x # xs) =
     (if x = JUndefined \<or> x = JNull then [] else ToString L x) # ToString_elems L xs"

text \<open>
  \<open>JSON.parse(JSON.stringify(v))\<close>, the value a serialised \<open>v\<close> parses back to: a property
  whose value is \<open>undefined\<close> is left out, \<open>undefined\<close> in an array becomes \<open>null\<close>, a date
  becomes its ISO string (\<open>null\<close> when invalid). \<open>None\<close> is \<open>undefined\<close>: nothing is
  serialised.
\<close>

fun stringify :: "DateLib \<Rightarrow> jsval \<Rightarrow> jsval option"
and stringify_elems :: "DateLib \<Rightarrow> jsval list \<Rightarrow> jsval list"
and stringify_props :: "DateLib \<Rightarrow> (string \<times> jsval) list \<Rightarrow> (string \<times> jsval) list" where
  "stringify L JUndefined = None"
| "stringify L JNull = Some JNull"
| "stringify L (JBool b) = Some (JBool b)"
| "stringify L (JNum n) = Some (JNum n)"
| "stringify L (JStr s) = Some (JStr s)"
| "stringify L (JDate d) = (case d of None \<Rightarrow> Some JNull | Some t \<Rightarrow> Some (JStr (toISOString L t)))"
| "stringify L (JArr xs) = Some (JArr (stringify_elems L xs))"
| "stringify L (JObj ps) = Some (JObj (stringify_props L ps))"
| "stringify_elems L [] = []"
| "stringify_elems L (x # xs) =
     (case stringify L x of None \<Rightarrow> JNull | Some j \<Rightarrow> j) # stringify_elems L xs"
| "stringify_props L [] = []"
| "stringify_props L ((k, v) # ps) =
     (case stringify L v of None \<Rightarrow> stringify_props L ps
      | Some j \<Rightarrow> (k, j) # stringify_props L ps)"

subsection \<open>The file system port\<close>

text \<open>
  A file holds either the text of a JSON document, identified with the value it parses to,
  or a text on which \<open>JSON.parse\<close> throws.
\<close>

datatype contents = Document jsval | Malformed string

record filesystem =
  files :: "(string \<times> contents) list"
  dirs :: "string list"

definition fs_exists :: "filesystem \<Rightarrow> string \<Rightarrow> bool" where
  "fs_exists fs path = (path \<in> fst ` set (files fs) \<or> path \<in> set (dirs fs))"

definition mkdir :: "filesystem \<Rightarrow> string \<Rightarrow> filesystem" where
  "mkdir fs path = fs\<lparr>dirs := (if path \<in> set (dirs fs) then dirs fs else dirs fs @ [path])\<rparr>"

definition writeFile :: "filesystem \<Rightarrow> string \<Rightarrow> contents \<Rightarrow> filesystem" where
  "writeFile fs path content = fs\<lparr>files := AList.update path content (files fs)\<rparr>"

definition readFile :: "filesystem \<Rightarrow> string \<Rightarrow> contents option" where
  "readFile fs path = map_of (files fs) path"

definition fs_delete :: "filesystem \<Rightarrow> string \<Rightarrow> filesystem" where
  "fs_delete fs path = fs\<lparr>files := AList.delete path (files fs)\<rparr>"

fun strip_prefix :: "string \<Rightarrow> string \<Rightarrow> string option" where
  "strip_prefix [] s = Some s"
| "strip_prefix (p # ps) [] = None"
| "strip_prefix (p # ps) (c # cs) = (if p = c then strip_prefix ps cs else None)"

text \<open>The names of the files directly inside a directory (\<open>recursive: false\<close>).\<close>

definition listFiles :: "filesystem \<Rightarrow> string \<Rightarrow> string list" where
  "listFiles fs dir =
     List.map_filter
       (\<lambda>(path, content). case strip_prefix (dir @ ''/'') path of
           None \<Rightarrow> None
         | Some name \<Rightarrow> if CHR ''/'' \<in> set name then None else Some name)
       (files fs)"

definition JSON_parse :: "contents \<Rightarrow> jsval option" where
  "JSON_parse t = (case t of Document j \<Rightarrow> Some j | Malformed s \<Rightarrow> None)"

subsection \<open>save, load, list\<close>

record StateManager =
  stateDir :: string

definition getStatePath :: "StateManager \<Rightarrow> string \<Rightarrow> string" where
  "getStatePath sm planId = stateDir sm @ ''/'' @ planId @ ''.json''"

definition ensureStateDir :: "StateManager \<Rightarrow> filesystem \<Rightarrow> filesystem" where
  "ensureStateDir sm fs = (if fs_exists fs (stateDir sm) then fs else mkdir fs (stateDir sm))"

text \<open>\<open>d?.toISOString()\<close>: \<open>None\<close> is the RangeError of an invalid date, or the TypeError of a
  value that has no such method.\<close>

fun opt_toISOString :: "DateLib \<Rightarrow> jsval \<Rightarrow> jsval option" where
  "opt_toISOString L JUndefined = Some JUndefined"
| "opt_toISOString L JNull = Some JUndefined"
| "opt_toISOString L (JDate (Some t)) = Some (JStr (toISOString L t))"
| "opt_toISOString L v = None"

definition save_task :: "DateLib \<Rightarrow> jsval \<Rightarrow> jsval option" where
  "save_task L t =
     (case js_get t ''startedAt'' of None \<Rightarrow> None
      | Some sa \<Rightarrow>
     (case opt_toISOString L sa of None \<Rightarrow> None
      | Some sa' \<Rightarrow>
     (case js_get t ''completedAt'' of None \<Rightarrow> None
      | Some ca \<Rightarrow>
     (case opt_toISOString L ca of None \<Rightarrow> None
      | Some ca' \<Rightarrow>
         Some (JObj (with_prop ''completedAt'' ca' (with_prop ''startedAt'' sa' (spread t))))))))"

fun map_option_list :: "('a \<Rightarrow> 'b option) \<Rightarrow> 'a list \<Rightarrow> 'b list option" where
  "map_option_list f [] = Some []"
| "map_option_list f (x # xs) =
     (case f x of None \<Rightarrow> None
      | Some y \<Rightarrow> (case map_option_list f xs of None \<Rightarrow> None | Some ys \<Rightarrow> Some (y # ys)))"

text \<open>\<open>save\<close> at the moment \<open>now\<close>; \<open>None\<close> when the promise rejects.\<close>

definition save :: "DateLib \<Rightarrow> int \<Rightarrow> StateManager \<Rightarrow> filesystem \<Rightarrow> jsval \<Rightarrow> filesystem option" where
  "save L now sm fs state =
     (let fs1 = ensureStateDir sm fs in
      case js_get state ''tasks'' of
        Some (JArr ts) \<Rightarrow>
          (case map_option_list (save_task L) ts of None \<Rightarrow> None
           | Some ts' \<Rightarrow>
          (case stringify L
                  (JObj (with_prop ''tasks'' (JArr ts')
                          (with_prop ''lastCheckpoint'' (JStr (toISOString L now)) (spread state)))) of
             None \<Rightarrow> None
           | Some serialized \<Rightarrow>
          (case js_get state ''planId'' of None \<Rightarrow> None
           | Some planId \<Rightarrow>
               Some (writeFile fs1 (getStatePath sm (ToString L planId)) (Document serialized)))))
      | other \<Rightarrow> None)"

definition load_task :: "DateLib \<Rightarrow> jsval \<Rightarrow> jsval option" where
  "load_task L t =
     (case js_get t ''startedAt'' of None \<Rightarrow> None
      | Some sa \<Rightarrow>
     (case js_get t ''completedAt'' of None \<Rightarrow> None
      | Some ca \<Rightarrow>
         Some (JObj (with_prop ''completedAt'' (if truthy ca then JDate (newDate L ca) else JUndefined)
                      (with_prop ''startedAt'' (if truthy sa then JDate (newDate L sa) else JUndefined)
                        (spread t))))))"

text \<open>The body of the \<open>try\<close> block of \<open>load\<close> after parsing; \<open>None\<close> when it throws.\<close>

definition deserialize :: "DateLib \<Rightarrow> jsval \<Rightarrow> jsval option" where
  "deserialize L parsed =
     (case js_get parsed ''startedAt'' of None \<Rightarrow> None
      | Some sa \<Rightarrow>
     (case js_get parsed ''lastCheckpoint'' of None \<Rightarrow> None
      | Some lc \<Rightarrow>
     (case js_get parsed ''tasks'' of
        Some (JArr ts) \<Rightarrow>
          (case map_option_list (load_task L) ts of None \<Rightarrow> None
           | Some ts' \<Rightarrow>
               Some (JObj (with_prop ''tasks'' (JArr ts')
                            (with_prop ''lastCheckpoint'' (JDate (newDate L lc))
                              (with_prop ''startedAt'' (JDate (newDate L sa)) (spread parsed))))))
      | other \<Rightarrow> None)))"

text \<open>\<open>load\<close> never rejects; \<open>JNull\<close> is its \<open>null\<close>.\<close>

definition load :: "DateLib \<Rightarrow> StateManager \<Rightarrow> filesystem \<Rightarrow> string \<Rightarrow> jsval" where
  "load L sm fs planId =
     (let path = getStatePath sm planId in
      if \<not> fs_exists fs path then JNull
      else case readFile fs path of None \<Rightarrow> JNull
           | Some content \<Rightarrow>
               (case JSON_parse content of None \<Rightarrow> JNull
                | Some parsed \<Rightarrow>
                    (case deserialize L parsed of None \<Rightarrow> JNull | Some state \<Rightarrow> state)))"

definition endsWith :: "string \<Rightarrow> string \<Rightarrow> bool" where
  "endsWith s suffix = (length suffix \<le> length s \<and> drop (length s - length suffix) s = suffix)"

text \<open>\<open>s.replace(pat, rep)\<close> with a string pattern: the first occurrence only.\<close>

fun replace_first :: "string \<Rightarrow> string \<Rightarrow> string \<Rightarrow> string" where
  "replace_first pat rep [] = (if pat = [] then rep else [])"
| "replace_first pat rep (c # cs) =
     (case strip_prefix pat (c # cs) of
        Some rest \<Rightarrow> rep @ rest
      | None \<Rightarrow> c # replace_first pat rep cs)"

definition list_plans :: "StateManager \<Rightarrow> filesystem \<Rightarrow> string list \<times> filesystem" where
  "list_plans sm fs =
     (let fs1 = ensureStateDir sm fs in
      (map (\<lambda>f. replace_first ''.json'' [] f)
           (filter (\<lambda>f. endsWith f ''.json'') (listFiles fs1 (stateDir sm))), fs1))"







subsection \<open>Well-typed execution states\<close>

datatype TaskStatus = PENDING | QUEUED | RUNNING | COMPLETED | FAILED | SKIPPED

fun status_name :: "TaskStatus \<Rightarrow> string" where
  "status_name PENDING = ''PENDING''"
| "status_name QUEUED = ''QUEUED''"
| "status_name RUNNING = ''RUNNING''"
| "status_name COMPLETED = ''COMPLETED''"
| "status_name FAILED = ''FAILED''"
| "status_name SKIPPED = ''SKIPPED''"

datatype Phase = planning | executing | documenting | completed | failed

fun phase_name :: "Phase \<Rightarrow> string" where
  "phase_name planning = ''planning''"
| "phase_name executing = ''executing''"
| "phase_name documenting = ''documenting''"
| "phase_name completed = ''completed''"
| "phase_name failed = ''failed''"

record TaskState =
  ts_id :: string
  ts_filePath :: string
  ts_description :: string
  ts_dependencies :: "string list"
  ts_status :: TaskStatus
  ts_result :: "string option"
  ts_error :: "string option"
  ts_attempts :: int
  ts_startedAt :: "int option"
  ts_completedAt :: "int option"

record ExecutionState =
  es_planId :: string
  es_goal :: string
  es_phase :: Phase
  es_tasks :: "TaskState list"
  es_architectureReasoning :: string
  es_startedAt :: int
  es_lastCheckpoint :: int
  es_metadata :: "(string \<times> jsval) list option"

text \<open>An optional property is present exactly when it has a value.\<close>

definition optional :: "string \<Rightarrow> 'a option \<Rightarrow> ('a \<Rightarrow> jsval) \<Rightarrow> (string \<times> jsval) list" where
  "optional k x f = (case x of None \<Rightarrow> [] | Some v \<Rightarrow> [(k, f v)])"

definition of_task :: "TaskState \<Rightarrow> jsval" where
  "of_task t =
     JObj ([(''id'', JStr (ts_id t)),
            (''filePath'', JStr (ts_filePath t)),
            (''description'', JStr (ts_description t)),
            (''dependencies'', JArr (map JStr (ts_dependencies t))),
            (''status'', JStr (status_name (ts_status t)))]
           @ optional ''result'' (ts_result t) JStr
           @ optional ''error'' (ts_error t) JStr
           @ [(''attempts'', JNum (ts_attempts t))]
           @ optional ''startedAt'' (ts_startedAt t) (\<lambda>d. JDate (Some d))
           @ optional ''completedAt'' (ts_completedAt t) (\<lambda>d. JDate (Some d)))"

definition of_state :: "ExecutionState \<Rightarrow> jsval" where
  "of_state s =
     JObj ([(''planId'', JStr (es_planId s)),
            (''goal'', JStr (es_goal s)),
            (''phase'', JStr (phase_name (es_phase s))),
            (''tasks'', JArr (map of_task (es_tasks s))),
            (''architectureReasoning'', JStr (es_architectureReasoning s)),
            (''startedAt'', JDate (Some (es_startedAt s))),
            (''lastCheckpoint'', JDate (Some (es_lastCheckpoint s)))]
           @ optional ''metadata'' (es_metadata s) JObj)"

text \<open>A value that \<open>JSON.stringify\<close> and \<open>JSON.parse\<close> give back unchanged: no \<open>undefined\<close>
  and no date inside.\<close>

fun json_plain :: "jsval \<Rightarrow> bool"
and json_plain_elems :: "jsval list \<Rightarrow> bool"
and json_plain_props :: "(string \<times> jsval) list \<Rightarrow> bool" where
  "json_plain JUndefined = False"
| "json_plain JNull = True"
| "json_plain (JBool b) = True"
| "json_plain (JNum n) = True"
| "json_plain (JStr s) = True"
| "json_plain (JDate d) = False"
| "json_plain (JArr xs) = json_plain_elems xs"
| "json_plain (JObj ps) = json_plain_props ps"
| "json_plain_elems [] = True"
| "json_plain_elems (x # xs) = (json_plain x \<and> json_plain_elems xs)"
| "json_plain_props [] = True"
| "json_plain_props ((k, v) # ps) = (json_plain v \<and> json_plain_props ps)"

text \<open>A stand-in for the \<open>Date\<close> library in concrete evaluations: it renders a time value
  in decimal and reads such a rendering back. The evaluations below do not depend on the
  rendering.\<close>

fun read_nat :: "string \<Rightarrow> nat \<Rightarrow> nat option" where
  "read_nat [] acc = Some acc"
| "read_nat (c # cs) acc =
     (if is_digit c then read_nat cs (10 * acc + (of_char c - 48)) else None)"

definition read_int :: "string \<Rightarrow> int option" where
  "read_int s =
     (case s of
        [] \<Rightarrow> None
      | c # cs \<Rightarrow>
          if c = CHR ''-'' then (if cs = [] then None else map_option (\<lambda>n. - int n) (read_nat cs 0))
          else map_option int (read_nat s 0))"

definition stub_dates :: DateLib where
  "stub_dates =
     \<lparr>toISOString = show_int,
      newDate = (\<lambda>v. case v of JStr s \<Rightarrow> read_int s | JNum n \<Rightarrow> Some n | other \<Rightarrow> None),
      dateToString = (\<lambda>d. case d of None \<Rightarrow> ''Invalid Date'' | Some t \<Rightarrow> show_int t)\<rparr>"

section \<open>Orchestrator (src/core/DevEngine.ts): entry, resume and documentation\<close>

text \<open>
  The engine keeps \<open>this.currentState\<close> as a reference to a state object, and
  \<open>resumeExecution\<close> reads the same object through its parameter \<open>state\<close> after writing
  it through \<open>this.currentState\<close>. Objects therefore live in a store and are named by
  addresses. The model provider, the scheduler run and the clock are outside this part of
  the program and are parameters: \<open>scheduler_run\<close> maps the tasks of the current state to
  whether \<open>scheduler.run()\<close> resolves and to the tasks as the executor callback leaves them
  (the callback writes \<open>tasks[i]\<close> only), \<open>scribe\<close> and \<open>architect\<close> are the answers of the
  model (\<open>None\<close>: the call rejects, or the plan does not parse). The trace records, in
  order, the phase assignments, the checkpoints (with the phase they store), the calls of
  the model and the files written.
\<close>

record TaskDefinition =
  td_id :: string
  td_file_path :: string
  td_description :: string
  td_dependencies :: "string list"
  td_priority :: "int option"

record ImplementationPlan =
  plan_tasks :: "TaskDefinition list"
  architecture_reasoning :: string

datatype action =
    SetPhase string
  | Saved string
  | LoadedPlan "string list"
  | ResumedFrom "string list"
  | SchedulerRan bool
  | AskedArchitect
  | AskedScribe string "(string \<times> string) list"
  | Wrote string string

record env =
  dates :: DateLib
  sha256hex :: "string \<Rightarrow> string"
  now :: int
  enableCheckpoints :: bool
  stateManager :: StateManager
  scheduler_run :: "jsval list \<Rightarrow> bool \<times> jsval list"
  architect :: "ImplementationPlan option"
  scribe :: "string option"

record engine =
  heap :: "nat \<Rightarrow> jsval"
  next_ref :: nat
  currentState :: "nat option"
  disk :: filesystem
  trace :: "action list"

text \<open>A statement either completes or throws; both leave an engine behind.\<close>

datatype outcome = Done engine | Threw engine

























subsection \<open>Concrete stores used in evaluations\<close>

definition default_store :: StateManager where
  "default_store = \<lparr>stateDir = ''.openclaw/state''\<rparr>"

definition corrupt_fs :: filesystem where
  "corrupt_fs =
     \<lparr>files = [(''.openclaw/state/plan-corrupt.json'', Malformed ''not-json'')],
      dirs = [''.openclaw/state'']\<rparr>"

definition intact_fs :: filesystem where
  "intact_fs =
     \<lparr>files = [(''.openclaw/state/plan-corrupt.json'', Document (JObj []))],
      dirs = [''.openclaw/state'']\<rparr>"

text \<open>A checkpoint interrupted while documenting, with one task left to run, its file
  system, and an engine that resumes it.\<close>

definition pending_task :: TaskState where
  "pending_task =
     \<lparr>ts_id = ''a'', ts_filePath = ''a.ts'', ts_description = ''module a'',
      ts_dependencies = [], ts_status = PENDING, ts_result = None, ts_error = None,
      ts_attempts = 1, ts_startedAt = Some 5, ts_completedAt = None\<rparr>"

definition documenting_state :: ExecutionState where
  "documenting_state =
     \<lparr>es_planId = ''plan-1'', es_goal = ''build'', es_phase = documenting,
      es_tasks = [pending_task], es_architectureReasoning = ''one module'',
      es_startedAt = 100, es_lastCheckpoint = 200, es_metadata = None\<rparr>"






text \<open>An execution state whose metadata holds a date, and an empty disk.\<close>

definition dated_state :: ExecutionState where
  "dated_state =
     \<lparr>es_planId = ''plan-2'', es_goal = ''build'', es_phase = executing,
      es_tasks = [], es_architectureReasoning = [],
      es_startedAt = 100, es_lastCheckpoint = 100,
      es_metadata = Some [(''requestedAt'', JDate (Some 7))]\<rparr>"

definition empty_disk :: filesystem where
  "empty_disk = \<lparr>files = [], dirs = []\<rparr>"

section \<open>Task scheduler (src/core/TaskScheduler.ts)\<close>

subsection \<open>Tasks, options and the state of a scheduler\<close>

text \<open>
  \<open>maxAttempts\<close> and \<open>defaultMaxAttempts\<close> are JavaScript numbers that the code only compares
  with the counter \<open>attempts\<close>. A finite double is a dyadic fraction: \<open>Dyadic m k\<close> is
  \<open>m / 2 ^ k\<close>, so \<open>Dyadic 3 1\<close> is 1.5 and \<open>whole n\<close> is the integer \<open>n\<close>. The others are
  \<open>NaN\<close> and the two infinities. \<open>int_less a x\<close> is the comparison \<open>a < x\<close> of JavaScript for an
  integer \<open>a\<close>.
\<close>

datatype number = Dyadic int nat | NaN | PosInfinity | NegInfinity

definition whole :: "int \<Rightarrow> number" where
  "whole n = Dyadic n 0"

fun int_less :: "int \<Rightarrow> number \<Rightarrow> bool" where
  "int_less a (Dyadic m k) = (a * 2 ^ k < m)"
| "int_less a NaN = False"
| "int_less a PosInfinity = True"
| "int_less a NegInfinity = False"

record Task =
  t_id :: string
  t_filePath :: string
  t_description :: string
  t_dependencies :: "string list"
  t_priority :: "int option"
  t_status :: TaskStatus
  t_result :: "string option"
  t_error :: "string option"
  t_attempts :: int
  t_maxAttempts :: "number option"

text \<open>The options after the constructor has filled in the defaults.\<close>

record SchedulerOptions =
  maxConcurrency :: int
  defaultMaxAttempts :: number
  taskTimeout :: int
  retryDelay :: int

text \<open>
  JavaScript runs one continuation at a time and switches at \<open>await\<close> only. A call of
  \<open>scheduleTask\<close> is therefore a process whose program counter names the \<open>await\<close> it is
  suspended at:
  \<^item> \<open>Acquired\<close>: \<open>acquire\<close> has taken a permit (or \<open>release\<close> has handed one over), and
    \<open>executeTask\<close> has not started;
  \<^item> \<open>Waiting\<close>: the resolver of the process is in the queue of the semaphore;
  \<^item> \<open>Started\<close>: in \<open>executeTask\<close>, at the \<open>await\<close> of the emission of \<open>task:start\<close>;
  \<^item> \<open>Executing\<close>: at the \<open>await\<close> of the executor raced against the timeout;
  \<^item> \<open>Completing\<close>: at the emission of \<open>task:complete\<close>, before \<open>onTaskCompleted\<close>;
  \<^item> \<open>Retrying\<close>: at the emission of \<open>task:retry\<close>; \<open>Delaying\<close>: at the \<open>await\<close> of the delay;
  \<^item> \<open>Failing\<close>: at the emission of \<open>task:failed\<close>, before \<open>skipDependentTasks\<close>;
  \<^item> \<open>Releasing\<close>: \<open>executeTask\<close> has returned, the \<open>finally\<close> block is next;
  \<^item> \<open>Finished\<close>: \<open>scheduleTask\<close> has returned.
  A retry calls \<open>scheduleTask\<close> from inside \<open>executeTask\<close>: the same process goes on one
  call deeper, and \<open>p_depth\<close> counts the enclosing calls of \<open>scheduleTask\<close>, each of which is
  still before its \<open>finally\<close> block.
\<close>

datatype pc =
    Acquired | Waiting | Started | Executing | Completing | Retrying | Delaying | Failing
  | Releasing | Finished

record proc =
  p_task :: string
  p_pc :: pc
  p_depth :: nat

text \<open>
  The maps of the class are association lists in insertion order, its sets are lists without
  repetition. \<open>permits\<close> and \<open>waiting\<close> are the semaphore; a waiting resolver is the index of
  its process. \<open>calls\<close> is not in the source: it logs the invocations of the executor callback.
\<close>

record scheduler =
  tasks :: "(string \<times> Task) list"
  dependents :: "(string \<times> string list) list"
  indegree :: "(string \<times> int) list"
  permits :: int
  waiting :: "nat list"
  runningTasks :: "string list"
  completedTasks :: "string list"
  failedTasks :: "string list"
  procs :: "proc list"
  calls :: "string list"
  options :: SchedulerOptions

definition new_scheduler :: "SchedulerOptions \<Rightarrow> scheduler" where
  "new_scheduler opts =
     \<lparr>tasks = [], dependents = [], indegree = [], permits = maxConcurrency opts, waiting = [],
      runningTasks = [], completedTasks = [], failedTasks = [], procs = [], calls = [],
      options = opts\<rparr>"

definition set_add :: "'a \<Rightarrow> 'a list \<Rightarrow> 'a list" where
  "set_add x xs = (if x \<in> set xs then xs else xs @ [x])"

definition set_delete :: "'a \<Rightarrow> 'a list \<Rightarrow> 'a list" where
  "set_delete x xs = removeAll x xs"

text \<open>\<open>this.dependents.get(id) ?? []\<close> and \<open>this.indegree.get(id) ?? 0\<close>\<close>

definition children :: "(string \<times> string list) list \<Rightarrow> string \<Rightarrow> string list" where
  "children g u = (case map_of g u of None \<Rightarrow> [] | Some vs \<Rightarrow> vs)"

definition indegree_of :: "scheduler \<Rightarrow> string \<Rightarrow> int" where
  "indegree_of s u = (case map_of (indegree s) u of None \<Rightarrow> 0 | Some n \<Rightarrow> n)"

text \<open>A write to a field of the task object stored under \<open>tid\<close>.\<close>

definition upd_task :: "string \<Rightarrow> (Task \<Rightarrow> Task) \<Rightarrow> scheduler \<Rightarrow> scheduler" where
  "upd_task tid f s =
     s\<lparr>tasks := map (\<lambda>(k, t). if k = tid then (k, f t) else (k, t)) (tasks s)\<rparr>"

subsection \<open>loadPlan\<close>

definition reset :: "scheduler \<Rightarrow> scheduler" where
  "reset s =
     s\<lparr>tasks := [], dependents := [], indegree := [], runningTasks := [],
       completedTasks := [], failedTasks := []\<rparr>"

text \<open>The first loop: every task normalised and stored, with indegree 0 and no dependent.\<close>

fun init_tasks :: "Task list \<Rightarrow> scheduler \<Rightarrow> scheduler" where
  "init_tasks [] s = s"
| "init_tasks (task # taskList) s =
     init_tasks taskList
       (s\<lparr>tasks := AList.update (t_id task)
                     (task\<lparr>t_status := PENDING, t_attempts := 0,
                            t_maxAttempts :=
                              (case t_maxAttempts task of
                                 None \<Rightarrow> Some (defaultMaxAttempts (options s))
                               | Some m \<Rightarrow> Some m)\<rparr>)
                     (tasks s),
          indegree := AList.update (t_id task) 0 (indegree s),
          dependents := AList.update (t_id task) [] (dependents s)\<rparr>)"

text \<open>The inner loop of the second loop: the dependencies of one task. An unknown parent is
  logged and skipped.\<close>

fun add_edges :: "string \<Rightarrow> string list \<Rightarrow> scheduler \<Rightarrow> scheduler" where
  "add_edges child [] s = s"
| "add_edges child (parentId # parents) s =
     (if parentId \<notin> fst ` set (tasks s) then add_edges child parents s
      else add_edges child parents
             (s\<lparr>dependents := AList.update parentId (children (dependents s) parentId @ [child])
                                (dependents s),
                indegree := AList.update child (indegree_of s child + 1) (indegree s)\<rparr>))"

fun build_graph :: "Task list \<Rightarrow> scheduler \<Rightarrow> scheduler" where
  "build_graph [] s = s"
| "build_graph (task # taskList) s =
     build_graph taskList (add_edges (t_id task) (t_dependencies task) s)"

definition loadPlan :: "Task list \<Rightarrow> scheduler \<Rightarrow> scheduler" where
  "loadPlan taskList s = build_graph taskList (init_tasks taskList (reset s))"

subsection \<open>hasCircularDependency\<close>

datatype colour = WHITE | GRAY | BLACK

text \<open>
  The recursive closure \<open>dfs\<close> with the colour map it updates, passed along. The first
  argument bounds the depth of the recursion and \<open>None\<close> says that the bound was too small;
  \<open>hasCircularDependency\<close> starts with the number of tasks, which is proved to be enough.
\<close>

fun dfs :: "nat \<Rightarrow> (string \<times> string list) list \<Rightarrow> (string \<rightharpoonup> colour) \<Rightarrow> string
            \<Rightarrow> (bool \<times> (string \<rightharpoonup> colour)) option"
and dfs_children :: "nat \<Rightarrow> (string \<times> string list) list \<Rightarrow> (string \<rightharpoonup> colour) \<Rightarrow> string list
            \<Rightarrow> (bool \<times> (string \<rightharpoonup> colour)) option" where
  "dfs 0 g c taskId = None"
| "dfs (Suc n) g c taskId =
     (case dfs_children n g (c(taskId \<mapsto> GRAY)) (children g taskId) of
        None \<Rightarrow> None
      | Some (True, c') \<Rightarrow> Some (True, c')
      | Some (False, c') \<Rightarrow> Some (False, c'(taskId \<mapsto> BLACK)))"
| "dfs_children n g c [] = Some (False, c)"
| "dfs_children n g c (childId # rest) =
     (if c childId = Some GRAY then Some (True, c)
      else if c childId = Some WHITE then
        (case dfs n g c childId of
           None \<Rightarrow> None
         | Some (True, c') \<Rightarrow> Some (True, c')
         | Some (False, c') \<Rightarrow> dfs_children n g c' rest)
      else dfs_children n g c rest)"

text \<open>The loop over \<open>this.tasks.keys()\<close>.\<close>

fun dfs_all :: "nat \<Rightarrow> (string \<times> string list) list \<Rightarrow> (string \<rightharpoonup> colour) \<Rightarrow> string list
            \<Rightarrow> bool option" where
  "dfs_all n g c [] = Some False"
| "dfs_all n g c (taskId # rest) =
     (if c taskId = Some WHITE then
        (case dfs n g c taskId of
           None \<Rightarrow> None
         | Some (True, c') \<Rightarrow> Some True
         | Some (False, c') \<Rightarrow> dfs_all n g c' rest)
      else dfs_all n g c rest)"

definition all_white :: "scheduler \<Rightarrow> (string \<rightharpoonup> colour)" where
  "all_white s = map_of (map (\<lambda>(k, t). (k, WHITE)) (tasks s))"

definition hasCircularDependency :: "scheduler \<Rightarrow> bool option" where
  "hasCircularDependency s =
     dfs_all (length (tasks s)) (dependents s) (all_white s) (map fst (tasks s))"

subsection \<open>The semaphore and scheduleTask\<close>

definition set_proc :: "nat \<Rightarrow> (proc \<Rightarrow> proc) \<Rightarrow> scheduler \<Rightarrow> scheduler" where
  "set_proc pid f s = s\<lparr>procs := (procs s)[pid := f (procs s ! pid)]\<rparr>"

text \<open>
  A call of \<open>scheduleTask\<close> up to its first \<open>await\<close>: the status becomes QUEUED and
  \<open>acquire\<close> either takes a permit or queues the resolver. The call is a new process.
\<close>

definition scheduleTask :: "string \<Rightarrow> scheduler \<Rightarrow> scheduler" where
  "scheduleTask tid s0 =
     (let s = upd_task tid (\<lambda>t. t\<lparr>t_status := QUEUED\<rparr>) s0 in
      if permits s > 0
      then s\<lparr>permits := permits s - 1,
             procs := procs s @ [\<lparr>p_task = tid, p_pc = Acquired, p_depth = 0\<rparr>]\<rparr>
      else s\<lparr>waiting := waiting s @ [length (procs s)],
             procs := procs s @ [\<lparr>p_task = tid, p_pc = Waiting, p_depth = 0\<rparr>]\<rparr>)"

text \<open>The same from inside \<open>executeTask\<close> (the retry): process \<open>pid\<close> goes one call deeper.\<close>

definition rescheduleTask :: "nat \<Rightarrow> string \<Rightarrow> scheduler \<Rightarrow> scheduler" where
  "rescheduleTask pid tid s0 =
     (let s = upd_task tid (\<lambda>t. t\<lparr>t_status := QUEUED\<rparr>) s0 in
      if permits s > 0
      then set_proc pid (\<lambda>p. p\<lparr>p_pc := Acquired, p_depth := Suc (p_depth p)\<rparr>)
             (s\<lparr>permits := permits s - 1\<rparr>)
      else set_proc pid (\<lambda>p. p\<lparr>p_pc := Waiting, p_depth := Suc (p_depth p)\<rparr>)
             (s\<lparr>waiting := waiting s @ [pid]\<rparr>))"

text \<open>\<open>release\<close>: the permit goes back, and to the first waiting resolver if there is one.\<close>

definition release :: "scheduler \<Rightarrow> scheduler" where
  "release s0 =
     (let s = s0\<lparr>permits := permits s0 + 1\<rparr> in
      case waiting s of
        [] \<Rightarrow> s
      | next # rest \<Rightarrow>
          set_proc next (\<lambda>p. p\<lparr>p_pc := Acquired\<rparr>)
            (s\<lparr>permits := permits s - 1, waiting := rest\<rparr>))"

subsection \<open>onTaskCompleted and skipDependentTasks\<close>

text \<open>The loop over the children of a completed task: the indegrees and \<open>newlyReady\<close>.\<close>

fun release_children :: "string list \<Rightarrow> scheduler \<Rightarrow> string list \<Rightarrow> scheduler \<times> string list" where
  "release_children [] s newlyReady = (s, newlyReady)"
| "release_children (childId # rest) s newlyReady =
     (let currentIndegree = indegree_of s childId - 1;
          s1 = s\<lparr>indegree := AList.update childId currentIndegree (indegree s)\<rparr>
      in if currentIndegree = 0
            \<and> (case map_of (tasks s1) childId of None \<Rightarrow> False | Some t \<Rightarrow> t_status t = PENDING)
         then release_children rest s1 (newlyReady @ [childId])
         else release_children rest s1 newlyReady)"

definition onTaskCompleted :: "string \<Rightarrow> scheduler \<Rightarrow> scheduler" where
  "onTaskCompleted taskId s =
     (case release_children (children (dependents s) taskId) s [] of
        (s1, newlyReady) \<Rightarrow> fold scheduleTask newlyReady s1)"

definition nodes :: "(string \<times> string list) list \<Rightarrow> string set" where
  "nodes g = fst ` set g \<union> (\<Union>(k, vs) \<in> set g. set vs)"

text \<open>The breadth-first loop of \<open>skipDependentTasks\<close>; \<open>toSkip\<close> holds the visited ids in the
  order of their visit (the source keeps them a second time in the set \<open>visited\<close>).\<close>

function bfs :: "(string \<times> string list) list \<Rightarrow> string list \<Rightarrow> string list \<Rightarrow> string list" where
  "bfs g [] toSkip = toSkip"
| "bfs g (taskId # queue) toSkip =
     (if taskId \<in> set toSkip then bfs g queue toSkip
      else bfs g (queue @ children g taskId) (toSkip @ [taskId]))"
  by pat_completeness auto

termination
proof (relation "inv_image (less_than <*lex*> less_than)
                   (\<lambda>(g, q, ts). (card (nodes g - set ts), length q))")
  show "wf (inv_image (less_than <*lex*> less_than)
              (\<lambda>(g, q, ts). (card (nodes g - set ts), length q)))"
    by (intro wf_inv_image wf_lex_prod wf_less_than)
next
  fix g :: "(string \<times> string list) list" and taskId :: string
    and queue toSkip :: "string list"
  assume "taskId \<in> set toSkip"
  then show "((g, queue, toSkip), (g, taskId # queue, toSkip))
             \<in> inv_image (less_than <*lex*> less_than)
                  (\<lambda>(g, q, ts). (card (nodes g - set ts), length q))"
    by simp
next
  fix g :: "(string \<times> string list) list" and taskId :: string
    and queue toSkip :: "string list"
  assume new: "taskId \<notin> set toSkip"
  have fin: "finite (nodes g)" by (auto simp: nodes_def)
  show "((g, queue @ children g taskId, toSkip @ [taskId]), (g, taskId # queue, toSkip))
        \<in> inv_image (less_than <*lex*> less_than)
             (\<lambda>(g, q, ts). (card (nodes g - set ts), length q))"
  proof (cases "taskId \<in> nodes g")
    case True
    with new have "nodes g - set (toSkip @ [taskId]) \<subset> nodes g - set toSkip" by auto
    with fin have "card (nodes g - set (toSkip @ [taskId])) < card (nodes g - set toSkip)"
      by (intro psubset_card_mono) auto
    then show ?thesis by simp
  next
    case False
    then have "map_of g taskId = None"
      by (auto simp: nodes_def map_of_eq_None_iff)
    then have "children g taskId = []" by (simp add: children_def)
    moreover from False have "nodes g - set (toSkip @ [taskId]) = nodes g - set toSkip" by auto
    ultimately show ?thesis by simp
  qed
qed

definition skip_message :: "string \<Rightarrow> string" where
  "skip_message failedTaskId = ''Skipped due to failed dependency: '' @ failedTaskId"

definition skip_one :: "string \<Rightarrow> string \<Rightarrow> scheduler \<Rightarrow> scheduler" where
  "skip_one failedTaskId taskId s =
     (upd_task taskId
        (\<lambda>t. t\<lparr>t_status := SKIPPED, t_error := Some (skip_message failedTaskId)\<rparr>) s)
       \<lparr>failedTasks := set_add taskId (failedTasks s)\<rparr>"

definition skipDependentTasks :: "string \<Rightarrow> scheduler \<Rightarrow> scheduler" where
  "skipDependentTasks failedTaskId s =
     fold (skip_one failedTaskId)
       (bfs (dependents s) (children (dependents s) failedTaskId) []) s"

subsection \<open>The steps of a process\<close>

text \<open>
  The executor callback is a parameter: for a task and the number of the attempt it tells
  whether the promise of \<open>executeWithTimeout\<close> resolves (\<open>Inr\<close> the result) or rejects (\<open>Inl\<close>
  the message: the callback threw, or the timeout won the race).
\<close>

type_synonym executor = "string \<Rightarrow> int \<Rightarrow> string + string"

definition max_attempts :: "scheduler \<Rightarrow> Task \<Rightarrow> number" where
  "max_attempts s t =
     (case t_maxAttempts t of None \<Rightarrow> defaultMaxAttempts (options s) | Some m \<Rightarrow> m)"

text \<open>
  One step of process \<open>pid\<close>: the code from the \<open>await\<close> it is suspended at to the next one.
  \<open>None\<close>: the process does not exist, waits for a permit, or has returned.
\<close>

definition step :: "executor \<Rightarrow> scheduler \<Rightarrow> nat \<Rightarrow> scheduler option" where
  "step X s pid =
     (if pid \<ge> length (procs s) then None
      else
        let p = procs s ! pid; tid = p_task p in
        case map_of (tasks s) tid of
          None \<Rightarrow> None
        | Some t \<Rightarrow>
           (case p_pc p of
              Waiting \<Rightarrow> None
            | Finished \<Rightarrow> None
            | Acquired \<Rightarrow>
                Some (set_proc pid (\<lambda>p. p\<lparr>p_pc := Started\<rparr>)
                       ((upd_task tid
                           (\<lambda>t. t\<lparr>t_status := RUNNING, t_attempts := t_attempts t + 1\<rparr>) s)
                          \<lparr>runningTasks := set_add tid (runningTasks s)\<rparr>))
            | Started \<Rightarrow>
                Some (set_proc pid (\<lambda>p. p\<lparr>p_pc := Executing\<rparr>) (s\<lparr>calls := calls s @ [tid]\<rparr>))
            | Executing \<Rightarrow>
                (case X tid (t_attempts t) of
                   Inr res \<Rightarrow>
                     Some (set_proc pid (\<lambda>p. p\<lparr>p_pc := Completing\<rparr>)
                            ((upd_task tid
                                (\<lambda>t. t\<lparr>t_status := COMPLETED, t_result := Some res\<rparr>) s)
                               \<lparr>runningTasks := set_delete tid (runningTasks s),
                                completedTasks := set_add tid (completedTasks s)\<rparr>))
                 | Inl errorMessage \<Rightarrow>
                     if int_less (t_attempts t) (max_attempts s t)
                     then Some (set_proc pid (\<lambda>p. p\<lparr>p_pc := Retrying\<rparr>)
                                 (s\<lparr>runningTasks := set_delete tid (runningTasks s)\<rparr>))
                     else Some (set_proc pid (\<lambda>p. p\<lparr>p_pc := Failing\<rparr>)
                                 ((upd_task tid
                                     (\<lambda>t. t\<lparr>t_status := FAILED, t_error := Some errorMessage\<rparr>) s)
                                    \<lparr>runningTasks := set_delete tid (runningTasks s),
                                     failedTasks := set_add tid (failedTasks s)\<rparr>)))
            | Completing \<Rightarrow>
                Some (set_proc pid (\<lambda>p. p\<lparr>p_pc := Releasing\<rparr>) (onTaskCompleted tid s))
            | Retrying \<Rightarrow>
                Some (set_proc pid (\<lambda>p. p\<lparr>p_pc := Delaying\<rparr>) s)
            | Delaying \<Rightarrow>
                Some (rescheduleTask pid tid s)
            | Failing \<Rightarrow>
                Some (set_proc pid (\<lambda>p. p\<lparr>p_pc := Releasing\<rparr>) (skipDependentTasks tid s))
            | Releasing \<Rightarrow>
                Some (release
                       (set_proc pid
                          (\<lambda>p. if p_depth p = 0 then p\<lparr>p_pc := Finished\<rparr>
                                else p\<lparr>p_depth := p_depth p - 1\<rparr>) s))))"

subsection \<open>run\<close>

definition priority_of :: "Task \<Rightarrow> int" where
  "priority_of t = (case t_priority t of None \<Rightarrow> 0 | Some n \<Rightarrow> n)"

text \<open>\<open>getReadyTasks\<close>: the stable sort by descending priority.\<close>

definition getReadyTasks :: "scheduler \<Rightarrow> Task list" where
  "getReadyTasks s =
     sort_key (\<lambda>t. - priority_of t)
       (filter (\<lambda>t. t_status t = PENDING \<and> indegree_of s (t_id t) = 0) (map snd (tasks s)))"

text \<open>
  \<open>run\<close> up to \<open>waitForCompletion\<close>: \<open>Inl\<close> the message of the error thrown, \<open>Inr\<close> the
  scheduler with the initial batch scheduled. \<open>None\<close>: the cycle check did not return.
\<close>

definition run_start :: "scheduler \<Rightarrow> (string + scheduler) option" where
  "run_start s =
     (case hasCircularDependency s of
        None \<Rightarrow> None
      | Some True \<Rightarrow> Some (Inl ''Circular dependency detected in task plan'')
      | Some False \<Rightarrow>
          (let initialBatch = getReadyTasks s in
           if initialBatch = [] \<and> tasks s \<noteq> []
           then Some (Inl ''No tasks are ready to execute. Check dependency configuration.'')
           else Some (Inr (fold (\<lambda>t. scheduleTask (t_id t)) initialBatch s))))"

text \<open>The test of the poll in \<open>waitForCompletion\<close>: no task is PENDING, QUEUED or RUNNING.\<close>

definition settled :: "scheduler \<Rightarrow> bool" where
  "settled s =
     list_all (\<lambda>(k, t). t_status t \<noteq> PENDING \<and> t_status t \<noteq> QUEUED \<and> t_status t \<noteq> RUNNING)
       (tasks s)"

text \<open>\<open>run\<close> after \<open>waitForCompletion\<close> has resolved: the error thrown, if any.\<close>

definition run_finish :: "scheduler \<Rightarrow> string option" where
  "run_finish s =
     (if failedTasks s \<noteq> []
      then Some (show_nat (length (failedTasks s)) @ '' task(s) failed: ''
                   @ join_with '', '' (failedTasks s))
      else None)"

text \<open>\<open>getStatus().summary[st]\<close>\<close>

definition summary :: "scheduler \<Rightarrow> TaskStatus \<Rightarrow> nat" where
  "summary s st = length (filter (\<lambda>(k, t). t_status t = st) (tasks s))"

subsection \<open>Executions\<close>

text \<open>The processes take steps one at a time, in any order; a schedule lists who moves.\<close>

fun exec_schedule :: "executor \<Rightarrow> scheduler \<Rightarrow> nat list \<Rightarrow> scheduler option" where
  "exec_schedule X s [] = Some s"
| "exec_schedule X s (pid # pids) =
     (case step X s pid of None \<Rightarrow> None | Some s' \<Rightarrow> exec_schedule X s' pids)"

inductive reaches :: "executor \<Rightarrow> scheduler \<Rightarrow> scheduler \<Rightarrow> bool" for X s0 where
  reaches_start: "reaches X s0 s0"
| reaches_step: "reaches X s0 s \<Longrightarrow> step X s pid = Some s' \<Longrightarrow> reaches X s0 s'"

text \<open>No process can take a step, and the poll of \<open>waitForCompletion\<close> still sees a task that
  is PENDING, QUEUED or RUNNING: \<open>run\<close> never returns.\<close>

definition stuck :: "executor \<Rightarrow> scheduler \<Rightarrow> bool" where
  "stuck X s = (list_all (\<lambda>pid. step X s pid = None) [0..<length (procs s)] \<and> \<not> settled s)"

text \<open>\<open>loadPlan\<close> on a new scheduler followed by \<open>run\<close> up to the wait.\<close>

definition load_and_run :: "SchedulerOptions \<Rightarrow> Task list \<Rightarrow> (string + scheduler) option" where
  "load_and_run opts taskList = run_start (loadPlan taskList (new_scheduler opts))"

subsection \<open>Concrete plans and executors used in evaluations\<close>

definition plain_task :: "string \<Rightarrow> string list \<Rightarrow> Task" where
  "plain_task i ds =
     \<lparr>t_id = i, t_filePath = ''src/test.ts'', t_description = ''Test task'',
      t_dependencies = ds, t_priority = None, t_status = PENDING, t_result = None,
      t_error = None, t_attempts = 0, t_maxAttempts = None\<rparr>"

definition scheduler_options :: "int \<Rightarrow> int \<Rightarrow> SchedulerOptions" where
  "scheduler_options c m =
     \<lparr>maxConcurrency = c, defaultMaxAttempts = whole m, taskTimeout = 300000,
      retryDelay = 1000\<rparr>"

text \<open>An executor that throws on the first attempt of a task and returns on the later ones,
  one that always throws, and one that always returns.\<close>

definition fails_once :: executor where
  "fails_once tid n = (if n < 2 then Inl ''Temporary failure'' else Inr ''Success'')"

definition always_throws :: executor where
  "always_throws tid n = Inl ''Persistent failure''"

definition always_returns :: executor where
  "always_returns tid n = Inr (''result-'' @ tid)"

text \<open>The scheduler after \<open>loadPlan\<close> and the start of \<open>run\<close>, when \<open>run\<close> gets that far.\<close>

definition started :: "SchedulerOptions \<Rightarrow> Task list \<Rightarrow> scheduler" where
  "started opts taskList =
     (case load_and_run opts taskList of
        Some (Inr s) \<Rightarrow> s
      | other \<Rightarrow> loadPlan taskList (new_scheduler opts))"

text \<open>One task that fails once, with two attempts allowed and one permit.\<close>

definition flaky_start :: scheduler where
  "flaky_start = started (scheduler_options 1 2) [plain_task ''flaky'' []]"

text \<open>The state of a scheduler after its first process has taken \<open>n\<close> steps.\<close>

definition after_steps :: "executor \<Rightarrow> scheduler \<Rightarrow> nat \<Rightarrow> scheduler" where
  "after_steps X s n = (case exec_schedule X s (replicate n 0) of None \<Rightarrow> s | Some s' \<Rightarrow> s')"

text \<open>The plan of scenario S4: \<open>p\<close>, \<open>c\<close> depending on \<open>p\<close>, \<open>g\<close> depending on \<open>c\<close>, one
  attempt each.\<close>

definition cascade_start :: scheduler where
  "cascade_start =
     started (scheduler_options 3 1)
       [plain_task ''p'' [], plain_task ''c'' [''p''], plain_task ''g'' [''c'']]"

text \<open>Two roots \<open>a\<close> and \<open>b\<close> and a task \<open>c\<close> depending on both, one attempt each, one
  permit.\<close>

definition two_parents_start :: scheduler where
  "two_parents_start =
     started (scheduler_options 1 1)
       [plain_task ''a'' [], plain_task ''b'' [], plain_task ''c'' [''a'', ''b'']]"

text \<open>One task that declares \<open>maxAttempts = 0\<close>.\<close>

definition zero_attempts_start :: scheduler where
  "zero_attempts_start =
     started (scheduler_options 3 3) [(plain_task ''t'' [])\<lparr>t_maxAttempts := Some (whole 0)\<rparr>]"

text \<open>One task that declares \<open>maxAttempts = 1.5\<close>.\<close>

definition fractional_start :: scheduler where
  "fractional_start =
     started (scheduler_options 3 3) [(plain_task ''t'' [])\<lparr>t_maxAttempts := Some (Dyadic 3 1)\<rparr>]"


definition status_of :: "scheduler \<Rightarrow> string \<Rightarrow> TaskStatus option" where
  "status_of s tid = map_option t_status (map_of (tasks s) tid)"

definition error_of :: "scheduler \<Rightarrow> string \<Rightarrow> string option" where
  "error_of s tid = (case map_of (tasks s) tid of None \<Rightarrow> None | Some t \<Rightarrow> t_error t)"

definition attempts_of :: "scheduler \<Rightarrow> string \<Rightarrow> int" where
  "attempts_of s tid = (case map_of (tasks s) tid of None \<Rightarrow> 0 | Some t \<Rightarrow> t_attempts t)"


subsection \<open>Invariants of a run\<close>

text \<open>The permits a process holds: one for each enclosing call of \<open>scheduleTask\<close>, and one
  for the current call unless it waits for its permit or has returned.\<close>

definition held :: "proc \<Rightarrow> int" where
  "held p = int (p_depth p) + (if p_pc p = Waiting \<or> p_pc p = Finished then 0 else 1)"

text \<open>The semaphore: the permits left and the permits held add up to \<open>maxConcurrency\<close>, and the
  queue holds processes that wait.\<close>

definition sem_inv :: "scheduler \<Rightarrow> bool" where
  "sem_inv s =
     (permits s + sum_list (map held (procs s)) = maxConcurrency (options s)
      \<and> distinct (waiting s)
      \<and> (\<forall>pid \<in> set (waiting s). pid < length (procs s) \<and> p_pc (procs s ! pid) = Waiting))"

text \<open>The program counters between the assignment of RUNNING and the next assignment of a
  status.\<close>

definition in_flight :: "pc \<Rightarrow> bool" where
  "in_flight c = (c = Started \<or> c = Executing \<or> c = Retrying \<or> c = Delaying)"

definition running_inv :: "scheduler \<Rightarrow> bool" where
  "running_inv s =
     (distinct (map fst (tasks s))
      \<and> (\<forall>k t. map_of (tasks s) k = Some t \<and> t_status t = RUNNING
             \<longrightarrow> (\<exists>p \<in> set (procs s). p_task p = k \<and> in_flight (p_pc p))))"

text \<open>
  The number of attempts the code allows a task: it attempts once before it compares
  \<open>attempts\<close> with \<open>maxAttempts\<close>, and it attempts again while \<open>attempts < maxAttempts\<close>. For a
  finite \<open>maxAttempts\<close> that is the larger of 1 and \<open>maxAttempts\<close> rounded up to an integer; for
  \<open>NaN\<close> and \<open>-Infinity\<close> the comparison is false and the limit is 1; for \<open>Infinity\<close> there is
  none.
\<close>

definition round_up :: "int \<Rightarrow> nat \<Rightarrow> int" where
  "round_up m k = - ((- m) div 2 ^ k)"

fun attempts_limit :: "number \<Rightarrow> int option" where
  "attempts_limit (Dyadic m k) = Some (max 1 (round_up m k))"
| "attempts_limit NaN = Some 1"
| "attempts_limit NegInfinity = Some 1"
| "attempts_limit PosInfinity = None"

fun allows :: "int option \<Rightarrow> int \<Rightarrow> bool" where
  "allows None a = True"
| "allows (Some b) a = (a \<le> b)"

definition attempts_bound :: "scheduler \<Rightarrow> Task \<Rightarrow> int option" where
  "attempts_bound s t = attempts_limit (max_attempts s t)"

definition task_ok :: "scheduler \<Rightarrow> string \<Rightarrow> Task \<Rightarrow> bool" where
  "task_ok s k t =
     (int (count_list (calls s) k) \<le> t_attempts t
      \<and> allows (attempts_bound s t) (t_attempts t)
      \<and> (t_status t = FAILED \<longrightarrow> \<not> int_less (t_attempts t) (max_attempts s t))
      \<and> (t_status t = PENDING \<longrightarrow> t_attempts t = 0 \<and> k \<notin> p_task ` set (procs s)))"

definition proc_ok :: "scheduler \<Rightarrow> proc \<Rightarrow> Task \<Rightarrow> bool" where
  "proc_ok s p t =
     (((p_pc p = Acquired \<or> p_pc p = Waiting \<or> p_pc p = Retrying \<or> p_pc p = Delaying)
         \<longrightarrow> allows (attempts_bound s t) (t_attempts t + 1))
      \<and> (p_pc p = Started \<longrightarrow> int (count_list (calls s) (p_task p)) < t_attempts t))"

definition attempts_inv :: "scheduler \<Rightarrow> bool" where
  "attempts_inv s =
     (distinct (map p_task (procs s))
      \<and> (\<forall>k t. map_of (tasks s) k = Some t \<longrightarrow> task_ok s k t)
      \<and> (\<forall>p \<in> set (procs s). \<forall>t. map_of (tasks s) (p_task p) = Some t \<longrightarrow> proc_ok s p t))"

text \<open>An assignment to a task that leaves its attempts, its bound and its id alone and sets
  none of the statuses PENDING, RUNNING and FAILED.\<close>

definition inert :: "(Task \<Rightarrow> Task) \<Rightarrow> bool" where
  "inert f =
     (\<forall>t. t_attempts (f t) = t_attempts t \<and> t_maxAttempts (f t) = t_maxAttempts t
          \<and> t_id (f t) = t_id t
          \<and> t_status (f t) \<noteq> PENDING \<and> t_status (f t) \<noteq> RUNNING \<and> t_status (f t) \<noteq> FAILED)"

text \<open>\<open>task.maxAttempts ?? this.options.defaultMaxAttempts\<close> of \<open>loadPlan\<close>\<close>

definition declared_attempts :: "SchedulerOptions \<Rightarrow> Task \<Rightarrow> number" where
  "declared_attempts opts task =
     (case t_maxAttempts task of None \<Rightarrow> defaultMaxAttempts opts | Some m \<Rightarrow> m)"

text \<open>A stored task is PENDING, has made no attempt, is stored under its id and has the
  bound of the plan or the default.\<close>

definition normalised :: "SchedulerOptions \<Rightarrow> Task list \<Rightarrow> string \<Rightarrow> Task \<Rightarrow> bool" where
  "normalised opts ts k t =
     (t_status t = PENDING \<and> t_attempts t = 0 \<and> t_id t = k
      \<and> (\<exists>task \<in> set ts. t_id task = k
            \<and> t_maxAttempts t = Some (declared_attempts opts task)))"

text \<open>The bound stored with every task.\<close>

definition bounds :: "scheduler \<Rightarrow> (string \<times> number option) list" where
  "bounds s = map (\<lambda>(k, t). (k, t_maxAttempts t)) (tasks s)"
subsection \<open>The dependency graph\<close>

text \<open>The edges of the map \<open>dependents\<close>, from a parent to a child.\<close>

definition edges :: "(string \<times> string list) list \<Rightarrow> (string \<times> string) set" where
  "edges g = {(u, v). v \<in> set (children g u)}"

text \<open>The edges that a plan declares: from a parent that is a task of the plan to a task
  that lists it among its dependencies.\<close>

definition dependency_edges :: "Task list \<Rightarrow> (string \<times> string) set" where
  "dependency_edges ts =
     {(p, c). p \<in> t_id ` set ts \<and> (\<exists>task \<in> set ts. t_id task = c \<and> p \<in> set (t_dependencies task))}"

text \<open>What the colours say about the part of the graph that the search has left: every child
  has a colour, the children of a BLACK task are BLACK, and no BLACK task is on a cycle.\<close>

definition coloured :: "(string \<rightharpoonup> colour) \<Rightarrow> colour \<Rightarrow> string set" where
  "coloured c col = {v. c v = Some col}"



subsection \<open>Invariants behind the cascade of skips\<close>

text \<open>The program counter of the process of a task, if the task has one.\<close>

definition pc_of :: "scheduler \<Rightarrow> string \<Rightarrow> pc option" where
  "pc_of s k = map_of (map (\<lambda>q. (p_task q, p_pc q)) (procs s)) k"

text \<open>The status that a task has while its process is at a program counter, and the status
  of a task without a process.\<close>

fun compat :: "pc option \<Rightarrow> TaskStatus \<Rightarrow> bool" where
  "compat None st = (st = PENDING \<or> st = SKIPPED)"
| "compat (Some Acquired) st = (st = QUEUED)"
| "compat (Some Waiting) st = (st = QUEUED)"
| "compat (Some Started) st = (st = RUNNING)"
| "compat (Some Executing) st = (st = RUNNING)"
| "compat (Some Retrying) st = (st = RUNNING)"
| "compat (Some Delaying) st = (st = RUNNING)"
| "compat (Some Completing) st = (st = COMPLETED)"
| "compat (Some Failing) st = (st = FAILED)"
| "compat (Some Releasing) st = (st = COMPLETED \<or> st = FAILED)"
| "compat (Some Finished) st = (st = COMPLETED \<or> st = FAILED)"

definition consistent :: "scheduler \<Rightarrow> bool" where
  "consistent s =
     (\<forall>k. (status_of s k = None \<longrightarrow> pc_of s k = None)
          \<and> (\<forall>st. status_of s k = Some st \<longrightarrow> compat (pc_of s k) st))"

text \<open>A task whose \<open>onTaskCompleted\<close> has run.\<close>

definition released :: "scheduler \<Rightarrow> string \<Rightarrow> bool" where
  "released s p =
     (status_of s p = Some COMPLETED \<and> (pc_of s p = Some Releasing \<or> pc_of s p = Some Finished))"

text \<open>The indegree of a task counts its entries in the lists of the tasks whose
  \<open>onTaskCompleted\<close> has not run.\<close>

definition pending_edges :: "scheduler \<Rightarrow> string \<Rightarrow> int" where
  "pending_edges s c =
     sum_list (map (\<lambda>(p, cs). if released s p then 0 else int (count_list cs c)) (dependents s))"

definition accounted :: "scheduler \<Rightarrow> bool" where
  "accounted s =
     (distinct (map fst (dependents s)) \<and> (\<forall>c. indegree_of s c = pending_edges s c))"

definition parents_released :: "scheduler \<Rightarrow> bool" where
  "parents_released s =
     (\<forall>c p. pc_of s c \<noteq> None \<and> (p, c) \<in> edges (dependents s) \<longrightarrow> released s p)"

definition skipped_named :: "scheduler \<Rightarrow> bool" where
  "skipped_named s =
     (\<forall>d. status_of s d = Some SKIPPED \<longrightarrow>
          d \<in> set (failedTasks s)
        \<and> (\<exists>g. (g, d) \<in> (edges (dependents s))\<^sup>+ \<and> status_of s g = Some FAILED
                \<and> error_of s d = Some (skip_message g)))"

definition skip_inv :: "scheduler \<Rightarrow> bool" where
  "skip_inv s =
     (distinct (map p_task (procs s)) \<and> consistent s \<and> accounted s \<and> parents_released s
      \<and> skipped_named s)"

section \<open>Properties of the state store\<close>

subsection \<open>list reads names only\<close>

lemma map_filter_names:
  "List.map_filter (\<lambda>(path, content). f path) xs = List.map_filter f (map fst xs)"
  by (induction xs) (auto simp: List.map_filter_simps split: option.splits)

lemma listFiles_names:
  "map fst (files fs) = map fst (files fs') \<Longrightarrow> listFiles fs dir = listFiles fs' dir"
  unfolding listFiles_def by (simp add: map_filter_names)

lemma fs_exists_names:
  "map fst (files fs) = map fst (files fs') \<Longrightarrow> dirs fs = dirs fs'
   \<Longrightarrow> fs_exists fs p = fs_exists fs' p"
  unfolding fs_exists_def by (metis set_map)

text \<open>
  C8, as the code has it. \<open>list\<close> is computed from the names of the files of the state
  directory alone and never reads a file: two file systems with the same paths give the same
  list, whatever the files hold. A file whose contents do not parse is therefore listed like
  any other (it is \<open>load\<close> that answers \<open>null\<close> for it).
\<close>

theorem list_ignores_contents:
  assumes "map fst (files fs) = map fst (files fs')" and "dirs fs = dirs fs'"
  shows "fst (list_plans sm fs) = fst (list_plans sm fs')"
proof -
  have "listFiles (ensureStateDir sm fs) (stateDir sm)
        = listFiles (ensureStateDir sm fs') (stateDir sm)"
    using assms fs_exists_names[OF assms]
    by (intro listFiles_names) (simp add: ensureStateDir_def mkdir_def)
  then show ?thesis by (simp add: list_plans_def Let_def)
qed

theorem list_ignores_contents_witness:
  "fst (list_plans default_store corrupt_fs) = fst (list_plans default_store intact_fs)"
  using list_ignores_contents [of corrupt_fs intact_fs default_store]
  by (simp add: corrupt_fs_def intact_fs_def)

text \<open>
  C8 as stated fails: with the text \<open>not-json\<close> stored in \<open>plan-corrupt.json\<close>, \<open>load\<close>
  answers \<open>null\<close> and \<open>list\<close> still returns \<open>plan-corrupt\<close>.
\<close>

theorem list_keeps_corrupt_entry:
  "load stub_dates default_store corrupt_fs ''plan-corrupt'' = JNull
   \<and> ''plan-corrupt'' \<in> set (fst (list_plans default_store corrupt_fs))"
  by (simp add: corrupt_fs_def default_store_def load_def getStatePath_def fs_exists_def
      readFile_def JSON_parse_def list_plans_def ensureStateDir_def listFiles_def
      List.map_filter_simps endsWith_def)

subsection \<open>isComplete on a state without tasks\<close>


subsection \<open>The stand-in for the date library reads back its own rendering\<close>

lemma digit_char_digit: "d < 10 \<Longrightarrow> is_digit (digit_char d) \<and> of_char (digit_char d) - 48 = d"
  by (simp add: digit_char_def is_digit_def)

lemma read_nat_append:
  "read_nat (xs @ ys) a = (case read_nat xs a of None \<Rightarrow> None | Some b \<Rightarrow> read_nat ys b)"
  by (induction xs arbitrary: a) auto

lemma read_show_nat: "read_nat (show_nat n) 0 = Some n"
proof (induction n rule: show_nat.induct)
  case (1 n)
  show ?case
  proof (cases "n < 10")
    case True
    then show ?thesis using digit_char_digit[of n] by (simp add: show_nat.simps[of n])
  next
    case False
    with 1 have ih: "read_nat (show_nat (n div 10)) 0 = Some (n div 10)" by simp
    have d: "n mod 10 < 10" by simp
    from False ih digit_char_digit[OF d] show ?thesis
      by (simp add: show_nat.simps[of n] read_nat_append)
  qed
qed

lemma show_nat_digits: "show_nat n \<noteq> [] \<and> (\<forall>c \<in> set (show_nat n). is_digit c)"
proof (induction n rule: show_nat.induct)
  case (1 n)
  show ?case
  proof (cases "n < 10")
    case True
    then show ?thesis using digit_char_digit[of n] by (simp add: show_nat.simps[of n])
  next
    case False
    have d: "n mod 10 < 10" by simp
    from False 1 digit_char_digit[OF d] show ?thesis by (simp add: show_nat.simps[of n])
  qed
qed

lemma read_show_int: "read_int (show_int i) = Some i"
proof (cases "i < 0")
  case True
  from show_nat_digits[of "nat (- i)"] have "show_nat (nat (- i)) \<noteq> []" by simp
  with True read_show_nat[of "nat (- i)"] show ?thesis
    by (simp add: read_int_def show_int_def)
next
  case False
  from show_nat_digits[of "nat i"] obtain c cs where s: "show_nat (nat i) = c # cs" "is_digit c"
    by (cases "show_nat (nat i)") auto
  then have "c \<noteq> CHR ''-''" by (auto simp: is_digit_def)
  with False s read_show_nat[of "nat i"] show ?thesis
    by (simp add: read_int_def show_int_def)
qed

lemma show_int_nonempty: "show_int i \<noteq> []"
  using show_nat_digits by (simp add: show_int_def)

lemma stub_dates_reads_back:
  "\<forall>t. newDate stub_dates (JStr (toISOString stub_dates t)) = Some t"
  "\<forall>t. toISOString stub_dates t \<noteq> []"
  by (simp_all add: stub_dates_def read_show_int show_int_nonempty)

subsection \<open>save followed by load\<close>

lemma stringify_plain:
  "json_plain v \<Longrightarrow> stringify L v = Some v"
  "json_plain_elems xs \<Longrightarrow> stringify_elems L xs = xs"
  "json_plain_props ps \<Longrightarrow> stringify_props L ps = ps"
  by (induction v and xs and ps rule: json_plain_json_plain_elems_json_plain_props.induct) auto

lemma stringify_elems_strings: "stringify_elems L (map JStr xs) = map JStr xs"
  by (induction xs) auto

lemma readFile_writeFile: "readFile (writeFile fs p c) p = Some c"
  by (simp add: readFile_def writeFile_def update_conv')

lemma fs_exists_writeFile: "fs_exists (writeFile fs p c) p"
  by (simp add: fs_exists_def writeFile_def dom_update)

lemma task_round_trip:
  assumes dates: "\<forall>t. newDate L (JStr (toISOString L t)) = Some t"
      and nonempty: "\<forall>t. toISOString L t \<noteq> []"
  shows "\<exists>t1 t2 t3. save_task L (of_task t) = Some t1 \<and> stringify L t1 = Some t2
            \<and> load_task L t2 = Some t3 \<and> (\<forall>k. js_get t3 k = js_get (of_task t) k)"
  using dates nonempty
  by (cases "ts_result t"; cases "ts_error t"; cases "ts_startedAt t"; cases "ts_completedAt t")
     (simp_all add: of_task_def save_task_def load_task_def optional_def with_prop_def own_prop_def
        stringify_elems_strings)

lemma tasks_round_trip:
  assumes dates: "\<forall>t. newDate L (JStr (toISOString L t)) = Some t"
      and nonempty: "\<forall>t. toISOString L t \<noteq> []"
  shows "\<exists>ts1 ts3. map_option_list (save_task L) (map of_task ts) = Some ts1
            \<and> map_option_list (load_task L) (stringify_elems L ts1) = Some ts3
            \<and> list_all2 (\<lambda>t3 t. \<forall>k. js_get t3 k = js_get (of_task t) k) ts3 ts"
proof (induction ts)
  case Nil
  show ?case by simp
next
  case (Cons t ts)
  from task_round_trip[OF dates nonempty, of t] obtain t1 t2 t3 where
    t: "save_task L (of_task t) = Some t1" "stringify L t1 = Some t2" "load_task L t2 = Some t3"
       "\<forall>k. js_get t3 k = js_get (of_task t) k" by blast
  from Cons.IH obtain ts1 ts3 where
    ts: "map_option_list (save_task L) (map of_task ts) = Some ts1"
        "map_option_list (load_task L) (stringify_elems L ts1) = Some ts3"
        "list_all2 (\<lambda>t3 t. \<forall>k. js_get t3 k = js_get (of_task t) k) ts3 ts" by blast
  show ?case
    apply (rule exI[of _ "t1 # ts1"])
    apply (rule exI[of _ "t3 # ts3"])
    using t ts apply simp
    done
qed

text \<open>
  C6, as the code has it. For every well-typed execution state (every date of the state and
  of its tasks a valid time value, every \<open>attempts\<close> an integer, \<open>phase\<close> and every \<open>status\<close> a
  member of its enumeration) whose metadata, if present, holds JSON values only (no date and
  no \<open>undefined\<close> inside), \<open>save\<close> resolves and \<open>load\<close>
  of the same \<open>planId\<close> returns an object that agrees with the saved state on every property
  other than \<open>tasks\<close> (\<open>lastCheckpoint\<close> being the moment of the save) and whose \<open>tasks\<close> is
  an array of the same length, each element agreeing with the saved task on every property.
  The \<open>Date\<close> library is assumed to read back its own ISO rendering, which is never empty.
\<close>

theorem save_load_round_trip:
  assumes dates: "\<forall>t. newDate L (JStr (toISOString L t)) = Some t"
      and nonempty: "\<forall>t. toISOString L t \<noteq> []"
      and plain: "case es_metadata s of None \<Rightarrow> True | Some m \<Rightarrow> json_plain_props m"
  shows "\<exists>fs'. save L moment sm fs (of_state s) = Some fs'
           \<and> (\<forall>k. k \<noteq> ''tasks'' \<longrightarrow>
                  js_get (load L sm fs' (es_planId s)) k
                  = js_get (of_state (s\<lparr>es_lastCheckpoint := moment\<rparr>)) k)
           \<and> (\<exists>ts. js_get (load L sm fs' (es_planId s)) ''tasks'' = Some (JArr ts)
                  \<and> length ts = length (es_tasks s)
                  \<and> (\<forall>i < length ts. \<forall>k. js_get (ts ! i) k = js_get (of_task (es_tasks s ! i)) k))"
proof -
  from tasks_round_trip[OF dates nonempty, of "es_tasks s"] obtain ts1 ts3 where
    ts: "map_option_list (save_task L) (map of_task (es_tasks s)) = Some ts1"
        "map_option_list (load_task L) (stringify_elems L ts1) = Some ts3"
        "list_all2 (\<lambda>t3 t. \<forall>k. js_get t3 k = js_get (of_task t) k) ts3 (es_tasks s)" by blast
  let ?meta = "optional ''metadata'' (es_metadata s) JObj"
  let ?doc = "JObj ([(''planId'', JStr (es_planId s)),
            (''goal'', JStr (es_goal s)),
            (''phase'', JStr (phase_name (es_phase s))),
            (''tasks'', JArr (stringify_elems L ts1)),
            (''architectureReasoning'', JStr (es_architectureReasoning s)),
            (''startedAt'', JStr (toISOString L (es_startedAt s))),
            (''lastCheckpoint'', JStr (toISOString L moment))] @ ?meta)"
  let ?fs' = "writeFile (ensureStateDir sm fs) (getStatePath sm (es_planId s)) (Document ?doc)"
  have meta: "stringify_props L ?meta = ?meta"
    using plain by (cases "es_metadata s") (simp_all add: optional_def stringify_plain(3))
  have sv: "save L moment sm fs (of_state s) = Some ?fs'"
    using ts(1) meta
    by (cases "es_metadata s")
       (simp_all add: save_def of_state_def own_prop_def with_prop_def optional_def Let_def)
  have ld: "load L sm ?fs' (es_planId s) =
      JObj ([(''planId'', JStr (es_planId s)),
            (''goal'', JStr (es_goal s)),
            (''phase'', JStr (phase_name (es_phase s))),
            (''tasks'', JArr ts3),
            (''architectureReasoning'', JStr (es_architectureReasoning s)),
            (''startedAt'', JDate (Some (es_startedAt s))),
            (''lastCheckpoint'', JDate (Some moment))] @ ?meta)"
    using ts(2) dates
    by (cases "es_metadata s")
       (simp_all add: load_def Let_def fs_exists_writeFile readFile_writeFile JSON_parse_def
          deserialize_def own_prop_def with_prop_def optional_def)
  have other: "\<forall>k. k \<noteq> ''tasks'' \<longrightarrow>
        js_get (load L sm ?fs' (es_planId s)) k = js_get (of_state (s\<lparr>es_lastCheckpoint := moment\<rparr>)) k"
    unfolding ld by (simp add: of_state_def own_prop_def)
  have tasks: "js_get (load L sm ?fs' (es_planId s)) ''tasks'' = Some (JArr ts3)"
    unfolding ld by (simp add: own_prop_def)
  have len: "length ts3 = length (es_tasks s)"
    using ts(3) by (rule list_all2_lengthD)
  have each: "\<forall>i < length ts3. \<forall>k. js_get (ts3 ! i) k = js_get (of_task (es_tasks s ! i)) k"
    using ts(3) by (simp add: list_all2_conv_all_nth)
  from sv other tasks len each show ?thesis by blast
qed

theorem save_load_round_trip_witness:
  "(\<forall>t. newDate stub_dates (JStr (toISOString stub_dates t)) = Some t)
   \<and> (\<forall>t. toISOString stub_dates t \<noteq> [])
   \<and> es_metadata documenting_state = None
   \<and> (\<exists>fs'. save stub_dates 300 default_store empty_disk (of_state documenting_state) = Some fs'
           \<and> (\<forall>k. k \<noteq> ''tasks'' \<longrightarrow>
                  js_get (load stub_dates default_store fs' (es_planId documenting_state)) k
                  = js_get (of_state (documenting_state\<lparr>es_lastCheckpoint := 300\<rparr>)) k)
           \<and> (\<exists>ts. js_get (load stub_dates default_store fs' (es_planId documenting_state)) ''tasks''
                      = Some (JArr ts)
                  \<and> length ts = length (es_tasks documenting_state)
                  \<and> (\<forall>i < length ts. \<forall>k. js_get (ts ! i) k
                         = js_get (of_task (es_tasks documenting_state ! i)) k)))"
proof -
  have m: "es_metadata documenting_state = None" by (simp add: documenting_state_def)
  then have p: "case es_metadata documenting_state of None \<Rightarrow> True | Some m \<Rightarrow> json_plain_props m"
    by simp
  from save_load_round_trip [OF stub_dates_reads_back p, of 300 default_store empty_disk]
    stub_dates_reads_back m
  show ?thesis by blast
qed

text \<open>
  C6 as stated fails on a state whose metadata holds a date: \<open>JSON.stringify\<close> writes the
  date as a string and \<open>load\<close> revives only \<open>startedAt\<close>, \<open>lastCheckpoint\<close> and the dates of
  the tasks, so the loaded metadata holds a string where the saved state holds a date.
\<close>

theorem save_load_changes_metadata_date:
  "(case save stub_dates 300 default_store empty_disk (of_state dated_state) of
      None \<Rightarrow> False
    | Some fs' \<Rightarrow>
        js_get (load stub_dates default_store fs' (es_planId dated_state)) ''metadata''
          \<noteq> js_get (of_state dated_state) ''metadata''
        \<and> js_get (load stub_dates default_store fs' (es_planId dated_state)) ''metadata''
          = Some (JObj [(''requestedAt'', JStr (toISOString stub_dates 7))])
        \<and> js_get (of_state dated_state) ''metadata''
          = Some (JObj [(''requestedAt'', JDate (Some 7))]))"
  by (simp add: save_def load_def dated_state_def of_state_def optional_def own_prop_def
      with_prop_def default_store_def empty_disk_def ensureStateDir_def fs_exists_def mkdir_def
      getStatePath_def Let_def writeFile_def readFile_def JSON_parse_def
      deserialize_def)

section \<open>Properties of the orchestrator\<close>

subsection \<open>Sequences of statements\<close>



















subsection \<open>Resuming redoes the documentation\<close>










subsection \<open>A checkpoint without tasks is never resumed\<close>




lemma cascade_steps:
  "step always_throws (after_steps always_throws cascade_start 0) 0 = Some (after_steps always_throws cascade_start 1)"
  "step always_throws (after_steps always_throws cascade_start 1) 0 = Some (after_steps always_throws cascade_start 2)"
  "step always_throws (after_steps always_throws cascade_start 2) 0 = Some (after_steps always_throws cascade_start 3)"
  "step always_throws (after_steps always_throws cascade_start 3) 0 = Some (after_steps always_throws cascade_start 4)"
  "step always_throws (after_steps always_throws cascade_start 4) 0 = Some (after_steps always_throws cascade_start 5)"
  "step always_throws (after_steps always_throws cascade_start 5) 0 = None"
  by code_simp+

lemma cascade_procs:
  "\<forall>n \<in> {0, 1, 2, 3, 4, 5}. length (procs (after_steps always_throws cascade_start n)) = 1"
  by code_simp

lemma cascade_outcome:
  "\<forall>n \<in> {0, 1, 2, 3, 4, 5}.
     settled (after_steps always_throws cascade_start n) \<longrightarrow>
       summary (after_steps always_throws cascade_start n) FAILED = 1
     \<and> summary (after_steps always_throws cascade_start n) SKIPPED = 2
     \<and> summary (after_steps always_throws cascade_start n) COMPLETED = 0
     \<and> error_of (after_steps always_throws cascade_start n) ''c''
         = Some ''Skipped due to failed dependency: p''
     \<and> run_finish (after_steps always_throws cascade_start n) = Some ''3 task(s) failed: p, c, g''"
  by code_simp

lemma cascade_loaded:
  "load_and_run (scheduler_options 3 1)
     [plain_task ''p'' [], plain_task ''c'' [''p''], plain_task ''g'' [''c'']]
   = Some (Inr cascade_start)"
  by code_simp

lemma cascade_ends:
  "exec_schedule always_throws cascade_start (replicate 5 0)
     = Some (after_steps always_throws cascade_start 5)
   \<and> settled (after_steps always_throws cascade_start 5)"
  by code_simp

lemma cascade_failed:
  "status_of (after_steps always_throws cascade_start 5) ''p'' = Some FAILED"
  by code_simp

section \<open>Runs of the scheduler on concrete plans\<close>

lemma reaches_closed:
  assumes "reaches X s0 s"
    and "s0 \<in> S"
    and "\<And>t pid t'. t \<in> S \<Longrightarrow> step X t pid = Some t' \<Longrightarrow> t' \<in> S"
  shows "s \<in> S"
  using assms by (induction rule: reaches.induct) auto

lemma exec_schedule_reaches:
  "exec_schedule X s pids = Some s' \<Longrightarrow> reaches X s0 s \<Longrightarrow> reaches X s0 s'"
  by (induction pids arbitrary: s) (auto split: option.splits intro: reaches_step)

lemma step_out_of_range: "length (procs s) \<le> pid \<Longrightarrow> step X s pid = None"
  by (simp add: step_def)

lemma flaky_steps:
  "step fails_once (after_steps fails_once flaky_start 0) 0 = Some (after_steps fails_once flaky_start 1)"
  "step fails_once (after_steps fails_once flaky_start 1) 0 = Some (after_steps fails_once flaky_start 2)"
  "step fails_once (after_steps fails_once flaky_start 2) 0 = Some (after_steps fails_once flaky_start 3)"
  "step fails_once (after_steps fails_once flaky_start 3) 0 = Some (after_steps fails_once flaky_start 4)"
  "step fails_once (after_steps fails_once flaky_start 4) 0 = Some (after_steps fails_once flaky_start 5)"
  "step fails_once (after_steps fails_once flaky_start 5) 0 = None"
  by code_simp+

lemma flaky_procs: "\<forall>n \<in> {0, 1, 2, 3, 4, 5}. length (procs (after_steps fails_once flaky_start n)) = 1"
  by code_simp

lemma flaky_unsettled: "\<forall>n \<in> {0, 1, 2, 3, 4, 5}. \<not> settled (after_steps fails_once flaky_start n)"
  by code_simp

lemma flaky_stuck: "stuck fails_once (after_steps fails_once flaky_start 5)"
  by code_simp

lemma flaky_loaded:
  "load_and_run (scheduler_options 1 2) [plain_task ''flaky'' []] = Some (Inr flaky_start)"
  by code_simp

lemma flaky_reaches_5: "reaches fails_once flaky_start (after_steps fails_once flaky_start 5)"
proof -
  have "exec_schedule fails_once flaky_start (replicate 5 0)
        = Some (after_steps fails_once flaky_start 5)"
    by code_simp
  then show ?thesis by (rule exec_schedule_reaches) (rule reaches_start)
qed

text \<open>
  C1 fails on the code. One task, two attempts allowed, one permit, an executor that throws
  on the first attempt: the retry calls \<open>scheduleTask\<close> while the permit of the first call is
  still held, \<open>acquire\<close> queues its resolver, and nothing is left to release the permit. The
  scheduler is stuck with the task QUEUED, and no state that the run can reach passes the
  test of \<open>waitForCompletion\<close>: \<open>run\<close> never returns.
\<close>

theorem retry_with_one_permit_never_settles:
  "load_and_run (scheduler_options 1 2) [plain_task ''flaky'' []] = Some (Inr flaky_start)
   \<and> (\<forall>s. reaches fails_once flaky_start s \<longrightarrow> \<not> settled s)
   \<and> reaches fails_once flaky_start (after_steps fails_once flaky_start 5)
   \<and> stuck fails_once (after_steps fails_once flaky_start 5)"
proof -
  let ?S = "after_steps fails_once flaky_start ` {0, 1, 2, 3, 4, 5}"
  have start: "flaky_start \<in> ?S"
    by (simp add: after_steps_def)
  have closed: "t' \<in> ?S" if "t \<in> ?S" and "step fails_once t pid = Some t'" for t pid t'
  proof -
    from that(1) flaky_procs have "length (procs t) = 1" by auto
    with that(2) step_out_of_range[of t pid fails_once] have "pid = 0"
      by (cases pid) auto
    with that flaky_steps show ?thesis by auto
  qed
  have "\<not> settled s" if "reaches fails_once flaky_start s" for s
  proof -
    have "s \<in> ?S"
      by (rule reaches_closed[where S = ?S, OF that start]) (rule closed)
    with flaky_unsettled show ?thesis by auto
  qed
  with flaky_loaded flaky_reaches_5 flaky_stuck show ?thesis by blast
qed

theorem retry_with_one_permit_never_settles_witness:
  "reaches fails_once flaky_start (after_steps fails_once flaky_start 5)
   \<and> \<not> settled (after_steps fails_once flaky_start 5)"
  using retry_with_one_permit_never_settles by blast

subsection \<open>Field by field\<close>

lemma upd_task_fields [simp]:
  "dependents (upd_task tid f s) = dependents s"
  "indegree (upd_task tid f s) = indegree s"
  "permits (upd_task tid f s) = permits s"
  "waiting (upd_task tid f s) = waiting s"
  "runningTasks (upd_task tid f s) = runningTasks s"
  "completedTasks (upd_task tid f s) = completedTasks s"
  "failedTasks (upd_task tid f s) = failedTasks s"
  "procs (upd_task tid f s) = procs s"
  "calls (upd_task tid f s) = calls s"
  "options (upd_task tid f s) = options s"
  by (simp_all add: upd_task_def)

lemma upd_task_keys [simp]: "map fst (tasks (upd_task tid f s)) = map fst (tasks s)"
  by (simp add: upd_task_def comp_def case_prod_beta)

lemma map_of_upd_alist:
  "map_of (map (\<lambda>(k, t). if k = tid then (k, f t) else (k, t)) al) k
   = (if k = tid then map_option f (map_of al k) else map_of al k)"
  by (induction al) auto

lemma upd_task_lookup [simp]:
  "map_of (tasks (upd_task tid f s)) k
   = (if k = tid then map_option f (map_of (tasks s) k) else map_of (tasks s) k)"
  by (simp add: upd_task_def map_of_upd_alist)

lemma set_proc_fields [simp]:
  "tasks (set_proc pid f s) = tasks s"
  "dependents (set_proc pid f s) = dependents s"
  "indegree (set_proc pid f s) = indegree s"
  "permits (set_proc pid f s) = permits s"
  "waiting (set_proc pid f s) = waiting s"
  "runningTasks (set_proc pid f s) = runningTasks s"
  "completedTasks (set_proc pid f s) = completedTasks s"
  "failedTasks (set_proc pid f s) = failedTasks s"
  "calls (set_proc pid f s) = calls s"
  "options (set_proc pid f s) = options s"
  "procs (set_proc pid f s) = (procs s)[pid := f (procs s ! pid)]"
  by (simp_all add: set_proc_def)

lemma max_attempts_cong:
  "options s' = options s \<Longrightarrow> max_attempts s' t = max_attempts s t"
  by (simp add: max_attempts_def split: option.splits)

lemma attempts_bound_cong:
  "options s' = options s \<Longrightarrow> attempts_bound s' t = attempts_bound s t"
  by (simp add: attempts_bound_def max_attempts_def split: option.splits)

lemma inert_bound: "inert f \<Longrightarrow> attempts_bound s (f t) = attempts_bound s t"
  by (simp add: inert_def attempts_bound_def max_attempts_def)

lemma inert_max: "inert f \<Longrightarrow> max_attempts s (f t) = max_attempts s t"
  by (simp add: inert_def max_attempts_def)

subsection \<open>The limit and the comparison of the code\<close>

lemma int_div_less_iff:
  fixes d :: int
  assumes d: "0 < d"
  shows "(x div d < y) = (x < y * d)"
proof
  assume a: "x div d < y"
  have e: "d * (x div d) + x mod d = x" by simp
  from d have m: "x mod d < d" by simp
  from e m have "x < d * (x div d) + d" by linarith
  also have "\<dots> = d * (x div d + 1)" by (simp add: algebra_simps)
  also from a d have "\<dots> \<le> d * y" by (intro mult_left_mono) simp_all
  finally show "x < y * d" by (simp add: mult.commute)
next
  assume a: "x < y * d"
  have e: "d * (x div d) + x mod d = x" by simp
  from d have m: "0 \<le> x mod d" by simp
  show "x div d < y"
  proof (rule ccontr)
    assume "\<not> x div d < y"
    then have "y \<le> x div d" by simp
    with d have "d * y \<le> d * (x div d)" by (intro mult_left_mono) simp_all
    with e m have "d * y \<le> x" by linarith
    with a show False by (simp add: mult.commute)
  qed
qed

lemma less_round_up: "a < round_up m k \<longleftrightarrow> a * 2 ^ k < m"
proof -
  have pos: "(0::int) < 2 ^ k" by simp
  have "a < round_up m k \<longleftrightarrow> (- m) div 2 ^ k < - a" by (auto simp: round_up_def)
  also have "\<dots> \<longleftrightarrow> - m < - a * 2 ^ k" by (rule int_div_less_iff[OF pos])
  also have "\<dots> \<longleftrightarrow> a * 2 ^ k < m" by simp
  finally show ?thesis .
qed

lemma round_up_whole: "round_up m 0 = m"
  by (simp add: round_up_def)

lemma allows_first: "allows (attempts_limit x) 0" "allows (attempts_limit x) 1"
  by (cases x; simp)+

lemma int_less_allows: "int_less a x \<Longrightarrow> allows (attempts_limit x) (a + 1)"
proof (cases x)
  case (Dyadic m k)
  assume "int_less a x"
  with Dyadic have "a < round_up m k" by (simp add: less_round_up)
  with Dyadic show ?thesis by simp
qed simp_all

subsection \<open>Inert assignments keep the invariants\<close>

lemma running_inv_inert:
  assumes "running_inv s" and "inert f"
  shows "running_inv (upd_task tid f s)"
  unfolding running_inv_def
proof (intro conjI allI impI)
  show "distinct (map fst (tasks (upd_task tid f s)))"
    using assms(1) by (simp add: running_inv_def)
next
  fix k t assume a: "map_of (tasks (upd_task tid f s)) k = Some t \<and> t_status t = RUNNING"
  have "map_of (tasks s) k = Some t"
  proof (cases "k = tid")
    case True
    with a obtain t0 where "t = f t0" by auto
    with a assms(2) show ?thesis by (simp add: inert_def)
  next
    case False
    with a show ?thesis by simp
  qed
  with a assms(1) show "\<exists>p \<in> set (procs (upd_task tid f s)). p_task p = k \<and> in_flight (p_pc p)"
    unfolding running_inv_def by simp
qed

lemma attempts_invD:
  assumes "attempts_inv s"
  shows "distinct (map p_task (procs s))"
    and "map_of (tasks s) k = Some t \<Longrightarrow> task_ok s k t"
    and "p \<in> set (procs s) \<Longrightarrow> map_of (tasks s) (p_task p) = Some t \<Longrightarrow> proc_ok s p t"
  using assms unfolding attempts_inv_def by blast+

lemma attempts_invI:
  assumes "distinct (map p_task (procs s))"
    and "\<And>k t. map_of (tasks s) k = Some t \<Longrightarrow> task_ok s k t"
    and "\<And>p t. p \<in> set (procs s) \<Longrightarrow> map_of (tasks s) (p_task p) = Some t \<Longrightarrow> proc_ok s p t"
  shows "attempts_inv s"
  using assms unfolding attempts_inv_def by blast

lemma task_ok_inert:
  assumes "task_ok s k t" and "inert f"
    and "calls s' = calls s" and "options s' = options s" and "procs s' = procs s"
  shows "task_ok s' k (f t)"
proof -
  from assms(2) have f: "t_attempts (f t) = t_attempts t" "t_status (f t) \<noteq> PENDING"
    "t_status (f t) \<noteq> FAILED"
    by (simp_all add: inert_def)
  from assms(1) have "int (count_list (calls s) k) \<le> t_attempts t"
    "allows (attempts_bound s t) (t_attempts t)"
    by (simp_all add: task_ok_def)
  with f assms(3,4) inert_bound[OF assms(2), of s t] show ?thesis
    by (simp add: task_ok_def attempts_bound_cong[OF assms(4)])
qed

lemma task_ok_cong:
  assumes "task_ok s k t"
    and "calls s' = calls s" and "options s' = options s" and "procs s' = procs s"
  shows "task_ok s' k t"
  using assms
  by (simp add: task_ok_def attempts_bound_cong[OF assms(3)] max_attempts_cong[OF assms(3)])

lemma proc_ok_inert:
  assumes "proc_ok s p t" and "inert f"
    and "calls s' = calls s" and "options s' = options s"
  shows "proc_ok s' p (f t)"
proof -
  from assms(2) have f: "t_attempts (f t) = t_attempts t" by (simp add: inert_def)
  from assms(1) f assms(3) inert_bound[OF assms(2), of s t] show ?thesis
    by (simp add: proc_ok_def attempts_bound_cong[OF assms(4)])
qed

lemma proc_ok_cong:
  assumes "proc_ok s p t"
    and "calls s' = calls s" and "options s' = options s"
  shows "proc_ok s' p t"
  using assms by (simp add: proc_ok_def attempts_bound_cong[OF assms(3)])

lemma attempts_inv_inert:
  assumes "attempts_inv s" and "inert f"
  shows "attempts_inv (upd_task tid f s)"
proof (rule attempts_invI)
  show "distinct (map p_task (procs (upd_task tid f s)))"
    using attempts_invD(1)[OF assms(1)] by simp
next
  fix k t assume a: "map_of (tasks (upd_task tid f s)) k = Some t"
  show "task_ok (upd_task tid f s) k t"
  proof (cases "k = tid")
    case True
    with a obtain t0 where t0: "map_of (tasks s) k = Some t0" "t = f t0" by auto
    from task_ok_inert[OF attempts_invD(2)[OF assms(1) t0(1)] assms(2), of "upd_task tid f s"] t0(2)
    show ?thesis by simp
  next
    case False
    with a have "map_of (tasks s) k = Some t" by simp
    from task_ok_cong[OF attempts_invD(2)[OF assms(1) this], of "upd_task tid f s"]
    show ?thesis by simp
  qed
next
  fix p t assume p: "p \<in> set (procs (upd_task tid f s))"
    and a: "map_of (tasks (upd_task tid f s)) (p_task p) = Some t"
  from p have p': "p \<in> set (procs s)" by simp
  show "proc_ok (upd_task tid f s) p t"
  proof (cases "p_task p = tid")
    case True
    with a obtain t0 where t0: "map_of (tasks s) (p_task p) = Some t0" "t = f t0" by auto
    from proc_ok_inert[OF attempts_invD(3)[OF assms(1) p' t0(1)] assms(2), of "upd_task tid f s"] t0(2)
    show ?thesis by simp
  next
    case False
    with a have "map_of (tasks s) (p_task p) = Some t" by simp
    from proc_ok_cong[OF attempts_invD(3)[OF assms(1) p' this], of "upd_task tid f s"]
    show ?thesis by simp
  qed
qed

subsection \<open>The semaphore\<close>

lemma sum_list_map_update:
  fixes f :: "'a \<Rightarrow> int"
  shows "i < length xs \<Longrightarrow> sum_list (map f (xs[i := y])) = sum_list (map f xs) - f (xs ! i) + f y"
proof (induction xs arbitrary: i)
  case Nil
  then show ?case by simp
next
  case (Cons x xs)
  then show ?case by (cases i) simp_all
qed

lemma sem_inv_cong:
  assumes "permits s' = permits s" "waiting s' = waiting s" "procs s' = procs s"
    "options s' = options s"
  shows "sem_inv s' = sem_inv s"
  by (simp add: sem_inv_def assms)

lemma sem_inv_upd_task [simp]: "sem_inv (upd_task tid f s) = sem_inv s"
  by (rule sem_inv_cong) simp_all

lemma sem_inv_scheduleTask:
  assumes "sem_inv s"
  shows "sem_inv (scheduleTask tid s)"
proof (cases "permits s > 0")
  case True
  with assms show ?thesis
    by (auto simp: scheduleTask_def sem_inv_def held_def nth_append Let_def)
next
  case False
  from assms have valid: "\<forall>pid \<in> set (waiting s). pid < length (procs s)"
    by (simp add: sem_inv_def)
  then have "length (procs s) \<notin> set (waiting s)" by auto
  with False assms show ?thesis
    by (auto simp: scheduleTask_def sem_inv_def held_def nth_append Let_def)
qed

lemma sem_inv_fold_scheduleTask:
  "sem_inv s \<Longrightarrow> sem_inv (fold scheduleTask ids s)"
  by (induction ids arbitrary: s) (simp_all add: sem_inv_scheduleTask)

lemma sem_inv_set_pc:
  assumes "sem_inv s" and "pid < length (procs s)"
    and "p_pc (procs s ! pid) \<noteq> Waiting" "p_pc (procs s ! pid) \<noteq> Finished"
    and "c \<noteq> Waiting" "c \<noteq> Finished"
  shows "sem_inv (set_proc pid (\<lambda>p. p\<lparr>p_pc := c\<rparr>) s)"
proof -
  let ?p = "procs s ! pid"
  have h: "held (?p\<lparr>p_pc := c\<rparr>) = held ?p" using assms(3-6) by (simp add: held_def)
  have w: "\<forall>w \<in> set (waiting s). w \<noteq> pid" using assms(1,3) by (auto simp: sem_inv_def)
  from assms(1,2) h w show ?thesis
    by (auto simp: sem_inv_def sum_list_map_update nth_list_update)
qed

lemma sem_inv_rescheduleTask:
  assumes "sem_inv s" and "pid < length (procs s)" and "p_pc (procs s ! pid) = Delaying"
  shows "sem_inv (rescheduleTask pid tid s)"
proof -
  let ?p = "procs s ! pid"
  have w: "pid \<notin> set (waiting s)" using assms(1,3) by (auto simp: sem_inv_def)
  then have w': "\<forall>w \<in> set (waiting s). w \<noteq> pid" by auto
  have h1: "held (?p\<lparr>p_pc := Acquired, p_depth := Suc (p_depth ?p)\<rparr>) = held ?p + 1"
    using assms(3) by (simp add: held_def)
  have h2: "held (?p\<lparr>p_pc := Waiting, p_depth := Suc (p_depth ?p)\<rparr>) = held ?p"
    using assms(3) by (simp add: held_def)
  show ?thesis
  proof (cases "permits s > 0")
    case True
    with assms(1,2) h1 w' show ?thesis
      by (auto simp: rescheduleTask_def sem_inv_def sum_list_map_update nth_list_update Let_def)
  next
    case False
    with assms(1,2) h2 w w' show ?thesis
      by (auto simp: rescheduleTask_def sem_inv_def sum_list_map_update nth_list_update Let_def)
  qed
qed

lemma sem_inv_release:
  assumes "sem_inv s" and "pid < length (procs s)" and "p_pc (procs s ! pid) = Releasing"
  shows "sem_inv (release (set_proc pid
            (\<lambda>p. if p_depth p = 0 then p\<lparr>p_pc := Finished\<rparr> else p\<lparr>p_depth := p_depth p - 1\<rparr>) s))"
proof -
  let ?p = "procs s ! pid"
  let ?g = "\<lambda>p. if p_depth p = 0 then p\<lparr>p_pc := Finished\<rparr> else p\<lparr>p_depth := p_depth p - 1\<rparr>"
  have h: "held (?g ?p) = held ?p - 1" using assms(3) by (simp add: held_def)
  have w: "\<forall>w \<in> set (waiting s). w \<noteq> pid" using assms(1,3) by (auto simp: sem_inv_def)
  show ?thesis
  proof (cases "waiting s")
    case Nil
    with assms(1,2) h show ?thesis
      by (auto simp: release_def sem_inv_def sum_list_map_update nth_list_update Let_def)
  next
    case (Cons n rest)
    with assms(1) have n: "n < length (procs s)" "p_pc (procs s ! n) = Waiting" "n \<noteq> pid"
      "n \<notin> set rest" "distinct rest"
      and rest: "\<forall>w \<in> set rest. w < length (procs s) \<and> p_pc (procs s ! w) = Waiting \<and> w \<noteq> n \<and> w \<noteq> pid"
      using w by (auto simp: sem_inv_def)
    have hn: "held ((procs s ! n)\<lparr>p_pc := Acquired\<rparr>) = held (procs s ! n) + 1"
      using n(2) by (simp add: held_def)
    from assms(1) have sum: "permits s + sum_list (map held (procs s)) = maxConcurrency (options s)"
      by (simp add: sem_inv_def)
    from Cons n rest hn h sum assms(2) show ?thesis
      by (auto simp: release_def sem_inv_def sum_list_map_update nth_list_update Let_def)
  qed
qed

text \<open>With a \<open>maxConcurrency\<close> that is not negative the permits never are.\<close>

lemma permits_scheduleTask: "0 \<le> permits s \<Longrightarrow> 0 \<le> permits (scheduleTask tid s)"
  by (simp add: scheduleTask_def Let_def)

lemma permits_fold_scheduleTask: "0 \<le> permits s \<Longrightarrow> 0 \<le> permits (fold scheduleTask ids s)"
  by (induction ids arbitrary: s) (simp_all add: permits_scheduleTask)

lemma permits_rescheduleTask: "0 \<le> permits s \<Longrightarrow> 0 \<le> permits (rescheduleTask pid tid s)"
  by (simp add: rescheduleTask_def Let_def)

lemma permits_release: "0 \<le> permits s \<Longrightarrow> 0 \<le> permits (release s)"
  by (simp add: release_def Let_def split: list.splits)

subsection \<open>The cases of a step\<close>

lemma step_cases [consumes 1, case_names Acquired Started Resolved Retry Exhausted Completing
    Retrying Delaying Failing Releasing]:
  assumes "step X s pid = Some s'"
  obtains
    (Acquired) t where "pid < length (procs s)"
      "map_of (tasks s) (p_task (procs s ! pid)) = Some t" "p_pc (procs s ! pid) = Acquired"
      "s' = set_proc pid (\<lambda>p. p\<lparr>p_pc := Started\<rparr>)
              ((upd_task (p_task (procs s ! pid))
                  (\<lambda>t. t\<lparr>t_status := RUNNING, t_attempts := t_attempts t + 1\<rparr>) s)
                 \<lparr>runningTasks := set_add (p_task (procs s ! pid)) (runningTasks s)\<rparr>)"
  | (Started) t where "pid < length (procs s)"
      "map_of (tasks s) (p_task (procs s ! pid)) = Some t" "p_pc (procs s ! pid) = Started"
      "s' = set_proc pid (\<lambda>p. p\<lparr>p_pc := Executing\<rparr>)
              (s\<lparr>calls := calls s @ [p_task (procs s ! pid)]\<rparr>)"
  | (Resolved) t res where "pid < length (procs s)"
      "map_of (tasks s) (p_task (procs s ! pid)) = Some t" "p_pc (procs s ! pid) = Executing"
      "X (p_task (procs s ! pid)) (t_attempts t) = Inr res"
      "s' = set_proc pid (\<lambda>p. p\<lparr>p_pc := Completing\<rparr>)
              ((upd_task (p_task (procs s ! pid))
                  (\<lambda>t. t\<lparr>t_status := COMPLETED, t_result := Some res\<rparr>) s)
                 \<lparr>runningTasks := set_delete (p_task (procs s ! pid)) (runningTasks s),
                  completedTasks := set_add (p_task (procs s ! pid)) (completedTasks s)\<rparr>)"
  | (Retry) t errorMessage where "pid < length (procs s)"
      "map_of (tasks s) (p_task (procs s ! pid)) = Some t" "p_pc (procs s ! pid) = Executing"
      "X (p_task (procs s ! pid)) (t_attempts t) = Inl errorMessage"
      "int_less (t_attempts t) (max_attempts s t)"
      "s' = set_proc pid (\<lambda>p. p\<lparr>p_pc := Retrying\<rparr>)
              (s\<lparr>runningTasks := set_delete (p_task (procs s ! pid)) (runningTasks s)\<rparr>)"
  | (Exhausted) t errorMessage where "pid < length (procs s)"
      "map_of (tasks s) (p_task (procs s ! pid)) = Some t" "p_pc (procs s ! pid) = Executing"
      "X (p_task (procs s ! pid)) (t_attempts t) = Inl errorMessage"
      "\<not> int_less (t_attempts t) (max_attempts s t)"
      "s' = set_proc pid (\<lambda>p. p\<lparr>p_pc := Failing\<rparr>)
              ((upd_task (p_task (procs s ! pid))
                  (\<lambda>t. t\<lparr>t_status := FAILED, t_error := Some errorMessage\<rparr>) s)
                 \<lparr>runningTasks := set_delete (p_task (procs s ! pid)) (runningTasks s),
                  failedTasks := set_add (p_task (procs s ! pid)) (failedTasks s)\<rparr>)"
  | (Completing) t where "pid < length (procs s)"
      "map_of (tasks s) (p_task (procs s ! pid)) = Some t" "p_pc (procs s ! pid) = Completing"
      "s' = set_proc pid (\<lambda>p. p\<lparr>p_pc := Releasing\<rparr>)
              (onTaskCompleted (p_task (procs s ! pid)) s)"
  | (Retrying) t where "pid < length (procs s)"
      "map_of (tasks s) (p_task (procs s ! pid)) = Some t" "p_pc (procs s ! pid) = Retrying"
      "s' = set_proc pid (\<lambda>p. p\<lparr>p_pc := Delaying\<rparr>) s"
  | (Delaying) t where "pid < length (procs s)"
      "map_of (tasks s) (p_task (procs s ! pid)) = Some t" "p_pc (procs s ! pid) = Delaying"
      "s' = rescheduleTask pid (p_task (procs s ! pid)) s"
  | (Failing) t where "pid < length (procs s)"
      "map_of (tasks s) (p_task (procs s ! pid)) = Some t" "p_pc (procs s ! pid) = Failing"
      "s' = set_proc pid (\<lambda>p. p\<lparr>p_pc := Releasing\<rparr>)
              (skipDependentTasks (p_task (procs s ! pid)) s)"
  | (Releasing) t where "pid < length (procs s)"
      "map_of (tasks s) (p_task (procs s ! pid)) = Some t" "p_pc (procs s ! pid) = Releasing"
      "s' = release (set_proc pid
              (\<lambda>p. if p_depth p = 0 then p\<lparr>p_pc := Finished\<rparr>
                    else p\<lparr>p_depth := p_depth p - 1\<rparr>) s)"
proof -
  from assms have pid: "pid < length (procs s)"
    by (simp add: step_def split: if_splits)
  with assms obtain t where t: "map_of (tasks s) (p_task (procs s ! pid)) = Some t"
    by (cases "map_of (tasks s) (p_task (procs s ! pid))") (simp_all add: step_def Let_def)
  show thesis
  proof (cases "p_pc (procs s ! pid)")
    case Acquired
    with assms pid t that(1) show ?thesis by (simp add: step_def Let_def)
  next
    case Waiting
    with assms pid t show ?thesis by (simp add: step_def Let_def)
  next
    case Started
    with assms pid t that(2) show ?thesis by (simp add: step_def Let_def)
  next
    case Executing
    show ?thesis
    proof (cases "X (p_task (procs s ! pid)) (t_attempts t)")
      case (Inr res)
      with Executing assms pid t that(3) show ?thesis by (simp add: step_def Let_def)
    next
      case (Inl errorMessage)
      show ?thesis
      proof (cases "int_less (t_attempts t) (max_attempts s t)")
        case True
        with Inl Executing assms pid t that(4) show ?thesis by (simp add: step_def Let_def)
      next
        case False
        with Inl Executing assms pid t that(5) show ?thesis by (simp add: step_def Let_def)
      qed
    qed
  next
    case Completing
    with assms pid t that(6) show ?thesis by (simp add: step_def Let_def)
  next
    case Retrying
    with assms pid t that(7) show ?thesis by (simp add: step_def Let_def)
  next
    case Delaying
    with assms pid t that(8) show ?thesis by (simp add: step_def Let_def)
  next
    case Failing
    with assms pid t that(9) show ?thesis by (simp add: step_def Let_def)
  next
    case Releasing
    with assms pid t that(10) show ?thesis by (simp add: step_def Let_def)
  next
    case Finished
    with assms pid t show ?thesis by (simp add: step_def Let_def)
  qed
qed

subsection \<open>What the composite operations leave alone\<close>

lemma scheduleTask_fields [simp]:
  "tasks (scheduleTask tid s) = tasks (upd_task tid (\<lambda>t. t\<lparr>t_status := QUEUED\<rparr>) s)"
  "calls (scheduleTask tid s) = calls s"
  "options (scheduleTask tid s) = options s"
  "dependents (scheduleTask tid s) = dependents s"
  "indegree (scheduleTask tid s) = indegree s"
  "failedTasks (scheduleTask tid s) = failedTasks s"
  "procs (scheduleTask tid s)
   = procs s @ [\<lparr>p_task = tid, p_pc = (if permits s > 0 then Acquired else Waiting), p_depth = 0\<rparr>]"
  by (simp_all add: scheduleTask_def Let_def)

lemma fold_scheduleTask_fields [simp]:
  "calls (fold scheduleTask ids s) = calls s"
  "options (fold scheduleTask ids s) = options s"
  "dependents (fold scheduleTask ids s) = dependents s"
  "indegree (fold scheduleTask ids s) = indegree s"
  "failedTasks (fold scheduleTask ids s) = failedTasks s"
  "map fst (tasks (fold scheduleTask ids s)) = map fst (tasks s)"
  by (induction ids arbitrary: s) simp_all

lemma fold_scheduleTask_procs:
  "\<exists>ps. procs (fold scheduleTask ids s) = procs s @ ps \<and> map p_task ps = ids"
proof (induction ids arbitrary: s)
  case Nil
  show ?case by simp
next
  case (Cons tid ids)
  from Cons[of "scheduleTask tid s"] obtain ps where
    "procs (fold scheduleTask ids (scheduleTask tid s)) = procs (scheduleTask tid s) @ ps"
    "map p_task ps = ids" by blast
  then show ?case by simp
qed

lemma fold_scheduleTask_nth:
  assumes "pid < length (procs s)"
  shows "procs (fold scheduleTask ids s) ! pid = procs s ! pid"
    and "pid < length (procs (fold scheduleTask ids s))"
  using fold_scheduleTask_procs[of ids s] assms by (auto simp: nth_append)

lemma release_children_fields:
  assumes "release_children cs s nr = (s', nr')"
  shows "tasks s' = tasks s \<and> procs s' = procs s \<and> calls s' = calls s \<and> options s' = options s
         \<and> permits s' = permits s \<and> waiting s' = waiting s \<and> dependents s' = dependents s
         \<and> failedTasks s' = failedTasks s"
  using assms
proof (induction cs arbitrary: s nr)
  case Nil
  then show ?case by simp
next
  case (Cons c cs)
  let ?s1 = "s\<lparr>indegree := AList.update c (indegree_of s c - 1) (indegree s)\<rparr>"
  from Cons.prems obtain nr1 where "release_children cs ?s1 nr1 = (s', nr')"
    by (simp add: Let_def split: if_splits)
  from Cons.IH[OF this] show ?case by simp
qed

lemma skip_one_fields [simp]:
  "tasks (skip_one f k s)
   = tasks (upd_task k (\<lambda>t. t\<lparr>t_status := SKIPPED, t_error := Some (skip_message f)\<rparr>) s)"
  "procs (skip_one f k s) = procs s"
  "calls (skip_one f k s) = calls s"
  "options (skip_one f k s) = options s"
  "permits (skip_one f k s) = permits s"
  "waiting (skip_one f k s) = waiting s"
  "dependents (skip_one f k s) = dependents s"
  "indegree (skip_one f k s) = indegree s"
  by (simp_all add: skip_one_def)

lemma fold_skip_one_fields [simp]:
  "procs (fold (skip_one f) ks s) = procs s"
  "calls (fold (skip_one f) ks s) = calls s"
  "options (fold (skip_one f) ks s) = options s"
  "permits (fold (skip_one f) ks s) = permits s"
  "waiting (fold (skip_one f) ks s) = waiting s"
  "dependents (fold (skip_one f) ks s) = dependents s"
  "indegree (fold (skip_one f) ks s) = indegree s"
  "map fst (tasks (fold (skip_one f) ks s)) = map fst (tasks s)"
  by (induction ks arbitrary: s) simp_all

lemma skipDependentTasks_fields [simp]:
  "procs (skipDependentTasks f s) = procs s"
  "calls (skipDependentTasks f s) = calls s"
  "options (skipDependentTasks f s) = options s"
  "permits (skipDependentTasks f s) = permits s"
  "waiting (skipDependentTasks f s) = waiting s"
  "dependents (skipDependentTasks f s) = dependents s"
  "indegree (skipDependentTasks f s) = indegree s"
  "map fst (tasks (skipDependentTasks f s)) = map fst (tasks s)"
  by (simp_all add: skipDependentTasks_def)

lemma release_fields [simp]:
  "tasks (release s) = tasks s"
  "calls (release s) = calls s"
  "options (release s) = options s"
  "dependents (release s) = dependents s"
  "indegree (release s) = indegree s"
  "failedTasks (release s) = failedTasks s"
  by (simp_all add: release_def Let_def split: list.splits)

lemma rescheduleTask_fields [simp]:
  "tasks (rescheduleTask pid tid s) = tasks (upd_task tid (\<lambda>t. t\<lparr>t_status := QUEUED\<rparr>) s)"
  "calls (rescheduleTask pid tid s) = calls s"
  "options (rescheduleTask pid tid s) = options s"
  "dependents (rescheduleTask pid tid s) = dependents s"
  "indegree (rescheduleTask pid tid s) = indegree s"
  "failedTasks (rescheduleTask pid tid s) = failedTasks s"
  by (simp_all add: rescheduleTask_def Let_def)

lemma onTaskCompleted_unfold:
  obtains s1 newlyReady where
    "release_children (children (dependents s) tid) s [] = (s1, newlyReady)"
    "onTaskCompleted tid s = fold scheduleTask newlyReady s1"
  by (cases "release_children (children (dependents s) tid) s []")
     (simp add: onTaskCompleted_def)

lemma onTaskCompleted_nth:
  assumes "pid < length (procs s)"
  shows "procs (onTaskCompleted tid s) ! pid = procs s ! pid"
    and "pid < length (procs (onTaskCompleted tid s))"
proof -
  obtain s1 nr where r: "release_children (children (dependents s) tid) s [] = (s1, nr)"
    and o: "onTaskCompleted tid s = fold scheduleTask nr s1"
    by (rule onTaskCompleted_unfold)
  from release_children_fields[OF r] assms have "pid < length (procs s1)" "procs s1 = procs s"
    by simp_all
  with fold_scheduleTask_nth[of pid s1 nr] o
  show "procs (onTaskCompleted tid s) ! pid = procs s ! pid"
    and "pid < length (procs (onTaskCompleted tid s))" by simp_all
qed

lemma onTaskCompleted_fields [simp]:
  "calls (onTaskCompleted tid s) = calls s"
  "options (onTaskCompleted tid s) = options s"
  "map fst (tasks (onTaskCompleted tid s)) = map fst (tasks s)"
  "dependents (onTaskCompleted tid s) = dependents s"
  "failedTasks (onTaskCompleted tid s) = failedTasks s"
proof -
  obtain s1 nr where r: "release_children (children (dependents s) tid) s [] = (s1, nr)"
    and o: "onTaskCompleted tid s = fold scheduleTask nr s1"
    by (rule onTaskCompleted_unfold)
  from release_children_fields[OF r] o
  show "calls (onTaskCompleted tid s) = calls s"
  "options (onTaskCompleted tid s) = options s"
  "map fst (tasks (onTaskCompleted tid s)) = map fst (tasks s)"
  "dependents (onTaskCompleted tid s) = dependents s"
  "failedTasks (onTaskCompleted tid s) = failedTasks s"
    by simp_all
qed

subsection \<open>A step keeps the semaphore\<close>

lemma sem_inv_onTaskCompleted:
  assumes "sem_inv s"
  shows "sem_inv (onTaskCompleted tid s)"
proof -
  obtain s1 nr where r: "release_children (children (dependents s) tid) s [] = (s1, nr)"
    and o: "onTaskCompleted tid s = fold scheduleTask nr s1"
    by (rule onTaskCompleted_unfold)
  from release_children_fields[OF r] have "sem_inv s1 = sem_inv s"
    by (intro sem_inv_cong) simp_all
  with assms o show ?thesis by (simp add: sem_inv_fold_scheduleTask)
qed

lemma sem_inv_step:
  assumes "sem_inv s" and "step X s pid = Some s'"
  shows "sem_inv s'"
  using assms(2)
proof (cases rule: step_cases)
  case (Acquired t)
  let ?s1 = "(upd_task (p_task (procs s ! pid))
                  (\<lambda>t. t\<lparr>t_status := RUNNING, t_attempts := t_attempts t + 1\<rparr>) s)
                 \<lparr>runningTasks := set_add (p_task (procs s ! pid)) (runningTasks s)\<rparr>"
  have "sem_inv ?s1 = sem_inv s" by (intro sem_inv_cong) simp_all
  with assms(1) have "sem_inv ?s1" by simp
  from sem_inv_set_pc[OF this, of pid Started] Acquired show ?thesis by simp
next
  case (Started t)
  let ?s1 = "s\<lparr>calls := calls s @ [p_task (procs s ! pid)]\<rparr>"
  have "sem_inv ?s1 = sem_inv s" by (intro sem_inv_cong) simp_all
  with assms(1) have "sem_inv ?s1" by simp
  from sem_inv_set_pc[OF this, of pid Executing] Started show ?thesis by simp
next
  case (Resolved t res)
  let ?s1 = "(upd_task (p_task (procs s ! pid))
                  (\<lambda>t. t\<lparr>t_status := COMPLETED, t_result := Some res\<rparr>) s)
                 \<lparr>runningTasks := set_delete (p_task (procs s ! pid)) (runningTasks s),
                  completedTasks := set_add (p_task (procs s ! pid)) (completedTasks s)\<rparr>"
  have "sem_inv ?s1 = sem_inv s" by (intro sem_inv_cong) simp_all
  with assms(1) have "sem_inv ?s1" by simp
  from sem_inv_set_pc[OF this, of pid Completing] Resolved show ?thesis by simp
next
  case (Retry t errorMessage)
  let ?s1 = "s\<lparr>runningTasks := set_delete (p_task (procs s ! pid)) (runningTasks s)\<rparr>"
  have "sem_inv ?s1 = sem_inv s" by (intro sem_inv_cong) simp_all
  with assms(1) have "sem_inv ?s1" by simp
  from sem_inv_set_pc[OF this, of pid Retrying] Retry show ?thesis by simp
next
  case (Exhausted t errorMessage)
  let ?s1 = "(upd_task (p_task (procs s ! pid))
                  (\<lambda>t. t\<lparr>t_status := FAILED, t_error := Some errorMessage\<rparr>) s)
                 \<lparr>runningTasks := set_delete (p_task (procs s ! pid)) (runningTasks s),
                  failedTasks := set_add (p_task (procs s ! pid)) (failedTasks s)\<rparr>"
  have "sem_inv ?s1 = sem_inv s" by (intro sem_inv_cong) simp_all
  with assms(1) have "sem_inv ?s1" by simp
  from sem_inv_set_pc[OF this, of pid Failing] Exhausted show ?thesis by simp
next
  case (Completing t)
  from sem_inv_set_pc[OF sem_inv_onTaskCompleted[OF assms(1), of "p_task (procs s ! pid)"], of pid Releasing]
    onTaskCompleted_nth[OF Completing(1)] Completing
  show ?thesis by simp
next
  case (Retrying t)
  from sem_inv_set_pc[OF assms(1), of pid Delaying] Retrying show ?thesis by simp
next
  case (Delaying t)
  from sem_inv_rescheduleTask[OF assms(1) Delaying(1,3)] Delaying(4) show ?thesis by simp
next
  case (Failing t)
  have "sem_inv (skipDependentTasks (p_task (procs s ! pid)) s) = sem_inv s"
    by (intro sem_inv_cong) simp_all
  with assms(1) have "sem_inv (skipDependentTasks (p_task (procs s ! pid)) s)" by simp
  from sem_inv_set_pc[OF this, of pid Releasing] Failing show ?thesis by simp
next
  case (Releasing t)
  from sem_inv_release[OF assms(1) Releasing(1,3)] Releasing(4) show ?thesis by simp
qed

subsection \<open>A step keeps a process behind every RUNNING task\<close>

lemma running_inv_cong:
  assumes "tasks s' = tasks s" "procs s' = procs s"
  shows "running_inv s' = running_inv s"
  by (simp add: running_inv_def assms)

lemma running_invI:
  assumes "distinct (map fst (tasks s))"
    and "\<And>k t. map_of (tasks s) k = Some t \<Longrightarrow> t_status t = RUNNING
          \<Longrightarrow> \<exists>p \<in> set (procs s). p_task p = k \<and> in_flight (p_pc p)"
  shows "running_inv s"
  using assms unfolding running_inv_def by blast

lemma running_invD:
  assumes "running_inv s"
  shows "distinct (map fst (tasks s))"
    and "map_of (tasks s) k = Some t \<Longrightarrow> t_status t = RUNNING
          \<Longrightarrow> \<exists>p \<in> set (procs s). p_task p = k \<and> in_flight (p_pc p)"
  using assms unfolding running_inv_def by blast+

lemma running_inv_upd:
  assumes "running_inv s" and "\<forall>t. t_status (f t) \<noteq> RUNNING"
  shows "running_inv (upd_task tid f s)"
proof (rule running_invI)
  show "distinct (map fst (tasks (upd_task tid f s)))"
    using running_invD(1)[OF assms(1)] by simp
next
  fix k t assume a: "map_of (tasks (upd_task tid f s)) k = Some t" and r: "t_status t = RUNNING"
  have "map_of (tasks s) k = Some t"
  proof (cases "k = tid")
    case True
    with a obtain t0 where "t = f t0" by auto
    with r assms(2) show ?thesis by simp
  next
    case False
    with a show ?thesis by simp
  qed
  from running_invD(2)[OF assms(1) this r]
  show "\<exists>p \<in> set (procs (upd_task tid f s)). p_task p = k \<and> in_flight (p_pc p)" by simp
qed

lemma running_inv_append:
  assumes "running_inv s" and "tasks s' = tasks s" and "procs s' = procs s @ ps"
  shows "running_inv s'"
proof (rule running_invI)
  show "distinct (map fst (tasks s'))" using running_invD(1)[OF assms(1)] assms(2) by simp
next
  fix k t assume "map_of (tasks s') k = Some t" "t_status t = RUNNING"
  with running_invD(2)[OF assms(1), of k t] assms(2,3)
  show "\<exists>p \<in> set (procs s'). p_task p = k \<and> in_flight (p_pc p)" by auto
qed

lemma running_inv_scheduleTask:
  assumes "running_inv s"
  shows "running_inv (scheduleTask tid s)"
proof -
  have "running_inv (upd_task tid (\<lambda>t. t\<lparr>t_status := QUEUED\<rparr>) s)"
    by (rule running_inv_upd[OF assms]) simp
  then show ?thesis by (rule running_inv_append) simp_all
qed

lemma running_inv_fold_scheduleTask:
  "running_inv s \<Longrightarrow> running_inv (fold scheduleTask ids s)"
  by (induction ids arbitrary: s) (simp_all add: running_inv_scheduleTask)

lemma running_inv_onTaskCompleted:
  assumes "running_inv s"
  shows "running_inv (onTaskCompleted tid s)"
proof -
  obtain s1 nr where r: "release_children (children (dependents s) tid) s [] = (s1, nr)"
    and o: "onTaskCompleted tid s = fold scheduleTask nr s1"
    by (rule onTaskCompleted_unfold)
  from release_children_fields[OF r] have "running_inv s1 = running_inv s"
    by (intro running_inv_cong) simp_all
  with assms o show ?thesis by (simp add: running_inv_fold_scheduleTask)
qed

lemma running_inv_skip_one:
  assumes "running_inv s"
  shows "running_inv (skip_one f k s)"
proof -
  have "running_inv (upd_task k (\<lambda>t. t\<lparr>t_status := SKIPPED, t_error := Some (skip_message f)\<rparr>) s)"
    by (rule running_inv_upd[OF assms]) simp
  moreover have "running_inv (skip_one f k s)
    = running_inv (upd_task k (\<lambda>t. t\<lparr>t_status := SKIPPED, t_error := Some (skip_message f)\<rparr>) s)"
    by (intro running_inv_cong) simp_all
  ultimately show ?thesis by simp
qed

lemma running_inv_skipDependentTasks:
  assumes "running_inv s"
  shows "running_inv (skipDependentTasks f s)"
proof -
  have "running_inv s \<Longrightarrow> running_inv (fold (skip_one f) ks s)" for ks s
    by (induction ks arbitrary: s) (simp_all add: running_inv_skip_one)
  with assms show ?thesis by (simp add: skipDependentTasks_def)
qed

text \<open>A process that keeps its task and stays in flight if it was.\<close>

lemma running_inv_stay:
  assumes "running_inv s" and "pid < length (procs s)"
    and "p_task (g (procs s ! pid)) = p_task (procs s ! pid)"
    and "in_flight (p_pc (procs s ! pid)) \<Longrightarrow> in_flight (p_pc (g (procs s ! pid)))"
  shows "running_inv (set_proc pid g s)"
proof (rule running_invI)
  show "distinct (map fst (tasks (set_proc pid g s)))"
    using running_invD(1)[OF assms(1)] by simp
next
  fix k t assume "map_of (tasks (set_proc pid g s)) k = Some t" "t_status t = RUNNING"
  with running_invD(2)[OF assms(1), of k t] obtain p where
    p: "p \<in> set (procs s)" "p_task p = k" "in_flight (p_pc p)" by auto
  then obtain j where j: "j < length (procs s)" "procs s ! j = p" by (auto simp: in_set_conv_nth)
  let ?ps = "(procs s)[pid := g (procs s ! pid)]"
  from j have "?ps ! j \<in> set ?ps" by simp
  moreover from j p assms(2,3,4) have "p_task (?ps ! j) = k \<and> in_flight (p_pc (?ps ! j))"
    by (cases "j = pid") auto
  ultimately show "\<exists>p \<in> set (procs (set_proc pid g s)). p_task p = k \<and> in_flight (p_pc p)"
    by auto
qed

text \<open>A process that leaves the flight assigns a status other than RUNNING to its task.\<close>

lemma running_inv_leave:
  assumes "running_inv s" and "pid < length (procs s)"
    and "p_task (g (procs s ! pid)) = p_task (procs s ! pid)"
    and "\<forall>t. t_status (f t) \<noteq> RUNNING"
  shows "running_inv (set_proc pid g (upd_task (p_task (procs s ! pid)) f s))"
proof (rule running_invI)
  show "distinct (map fst (tasks (set_proc pid g (upd_task (p_task (procs s ! pid)) f s))))"
    using running_invD(1)[OF assms(1)] by simp
next
  fix k t
  assume a: "map_of (tasks (set_proc pid g (upd_task (p_task (procs s ! pid)) f s))) k = Some t"
    and r: "t_status t = RUNNING"
  have k: "k \<noteq> p_task (procs s ! pid)"
  proof
    assume "k = p_task (procs s ! pid)"
    with a obtain t0 where "t = f t0" by auto
    with r assms(4) show False by simp
  qed
  with a have "map_of (tasks s) k = Some t" by simp
  from running_invD(2)[OF assms(1) this r] obtain p where
    p: "p \<in> set (procs s)" "p_task p = k" "in_flight (p_pc p)" by auto
  then obtain j where j: "j < length (procs s)" "procs s ! j = p" by (auto simp: in_set_conv_nth)
  with p k have "j \<noteq> pid" by auto
  let ?ps = "(procs s)[pid := g (procs s ! pid)]"
  from j have "?ps ! j \<in> set ?ps" by simp
  moreover from j p \<open>j \<noteq> pid\<close> have "p_task (?ps ! j) = k \<and> in_flight (p_pc (?ps ! j))"
    by simp
  ultimately show "\<exists>p \<in> set (procs (set_proc pid g (upd_task (p_task (procs s ! pid)) f s))).
         p_task p = k \<and> in_flight (p_pc p)"
    by auto
qed

text \<open>The process that assigns RUNNING is in flight afterwards.\<close>

lemma running_inv_start:
  assumes "running_inv s" and "pid < length (procs s)"
  shows "running_inv (set_proc pid (\<lambda>p. p\<lparr>p_pc := Started\<rparr>)
                         (upd_task (p_task (procs s ! pid)) f s))"
proof (rule running_invI)
  show "distinct (map fst (tasks (set_proc pid (\<lambda>p. p\<lparr>p_pc := Started\<rparr>)
                         (upd_task (p_task (procs s ! pid)) f s))))"
    using running_invD(1)[OF assms(1)] by simp
next
  fix k t
  assume a: "map_of (tasks (set_proc pid (\<lambda>p. p\<lparr>p_pc := Started\<rparr>)
                         (upd_task (p_task (procs s ! pid)) f s))) k = Some t"
    and r: "t_status t = RUNNING"
  let ?ps = "(procs s)[pid := (procs s ! pid)\<lparr>p_pc := Started\<rparr>]"
  have "\<exists>p \<in> set ?ps. p_task p = k \<and> in_flight (p_pc p)"
  proof (cases "k = p_task (procs s ! pid)")
    case True
    from assms(2) have "?ps ! pid \<in> set ?ps" by (simp add: set_update_memI)
    moreover from assms(2) True have "p_task (?ps ! pid) = k \<and> in_flight (p_pc (?ps ! pid))"
      by (simp add: in_flight_def)
    ultimately show ?thesis by blast
  next
    case False
    with a have "map_of (tasks s) k = Some t" by simp
    from running_invD(2)[OF assms(1) this r] obtain p where
      p: "p \<in> set (procs s)" "p_task p = k" "in_flight (p_pc p)" by auto
    then obtain j where j: "j < length (procs s)" "procs s ! j = p"
      by (auto simp: in_set_conv_nth)
    with p False have "j \<noteq> pid" by auto
    from j have "?ps ! j \<in> set ?ps" by simp
    moreover from j p \<open>j \<noteq> pid\<close> have "p_task (?ps ! j) = k \<and> in_flight (p_pc (?ps ! j))"
      by simp
    ultimately show ?thesis by blast
  qed
  then show "\<exists>p \<in> set (procs (set_proc pid (\<lambda>p. p\<lparr>p_pc := Started\<rparr>)
                         (upd_task (p_task (procs s ! pid)) f s))).
         p_task p = k \<and> in_flight (p_pc p)"
    by simp
qed

lemma running_inv_release:
  assumes "running_inv s"
    and "\<forall>n \<in> set (waiting s). n < length (procs s) \<and> \<not> in_flight (p_pc (procs s ! n))"
  shows "running_inv (release s)"
proof (cases "waiting s")
  case Nil
  have "running_inv (release s) = running_inv s"
    by (rule running_inv_cong) (simp_all add: release_def Nil)
  with assms show ?thesis by simp
next
  case (Cons n rest)
  let ?s1 = "s\<lparr>permits := permits s + 1 - 1, waiting := rest\<rparr>"
  have s1: "running_inv ?s1" using assms(1) running_inv_cong[of ?s1 s] by simp
  have r: "release s = set_proc n (\<lambda>p. p\<lparr>p_pc := Acquired\<rparr>) ?s1"
    by (simp add: release_def Cons)
  from assms(2) Cons have n: "n < length (procs ?s1)" "\<not> in_flight (p_pc (procs ?s1 ! n))"
    by simp_all
  have "running_inv (set_proc n (\<lambda>p. p\<lparr>p_pc := Acquired\<rparr>) ?s1)"
    by (rule running_inv_stay[OF s1 n(1)]) (use n(2) in simp_all)
  with r show ?thesis by simp
qed

lemma running_inv_step:
  assumes "sem_inv s" and "running_inv s" and "step X s pid = Some s'"
  shows "running_inv s'"
  using assms(3)
proof (cases rule: step_cases)
  case (Acquired t)
  let ?f = "\<lambda>t. t\<lparr>t_status := RUNNING, t_attempts := t_attempts t + 1\<rparr>"
  let ?s1 = "set_proc pid (\<lambda>p. p\<lparr>p_pc := Started\<rparr>) (upd_task (p_task (procs s ! pid)) ?f s)"
  have "running_inv s' = running_inv ?s1"
    by (rule running_inv_cong) (simp_all add: Acquired(4))
  with running_inv_start[OF assms(2) Acquired(1), of ?f] show ?thesis by simp
next
  case (Started t)
  let ?s1 = "set_proc pid (\<lambda>p. p\<lparr>p_pc := Executing\<rparr>) s"
  have "running_inv s' = running_inv ?s1"
    by (rule running_inv_cong) (simp_all add: Started(4))
  moreover have "running_inv ?s1"
    by (rule running_inv_stay[OF assms(2) Started(1)]) (simp_all add: in_flight_def)
  ultimately show ?thesis by simp
next
  case (Resolved t res)
  let ?f = "\<lambda>t. t\<lparr>t_status := COMPLETED, t_result := Some res\<rparr>"
  let ?s1 = "set_proc pid (\<lambda>p. p\<lparr>p_pc := Completing\<rparr>) (upd_task (p_task (procs s ! pid)) ?f s)"
  have "running_inv s' = running_inv ?s1"
    by (rule running_inv_cong) (simp_all add: Resolved(5))
  moreover have "running_inv ?s1"
    by (rule running_inv_leave[OF assms(2) Resolved(1)]) simp_all
  ultimately show ?thesis by simp
next
  case (Retry t errorMessage)
  let ?s1 = "set_proc pid (\<lambda>p. p\<lparr>p_pc := Retrying\<rparr>) s"
  have "running_inv s' = running_inv ?s1"
    by (rule running_inv_cong) (simp_all add: Retry(6))
  moreover have "running_inv ?s1"
    by (rule running_inv_stay[OF assms(2) Retry(1)]) (simp_all add: in_flight_def)
  ultimately show ?thesis by simp
next
  case (Exhausted t errorMessage)
  let ?f = "\<lambda>t. t\<lparr>t_status := FAILED, t_error := Some errorMessage\<rparr>"
  let ?s1 = "set_proc pid (\<lambda>p. p\<lparr>p_pc := Failing\<rparr>) (upd_task (p_task (procs s ! pid)) ?f s)"
  have "running_inv s' = running_inv ?s1"
    by (rule running_inv_cong) (simp_all add: Exhausted(6))
  moreover have "running_inv ?s1"
    by (rule running_inv_leave[OF assms(2) Exhausted(1)]) simp_all
  ultimately show ?thesis by simp
next
  case (Completing t)
  let ?s1 = "onTaskCompleted (p_task (procs s ! pid)) s"
  have "running_inv (set_proc pid (\<lambda>p. p\<lparr>p_pc := Releasing\<rparr>) ?s1)"
  proof (rule running_inv_stay[OF running_inv_onTaskCompleted[OF assms(2)]])
    show "pid < length (procs ?s1)" by (rule onTaskCompleted_nth(2)[OF Completing(1)])
  next
    show "p_task ((procs ?s1 ! pid)\<lparr>p_pc := Releasing\<rparr>) = p_task (procs ?s1 ! pid)" by simp
  next
    assume "in_flight (p_pc (procs ?s1 ! pid))"
    with onTaskCompleted_nth(1)[OF Completing(1)] Completing(3)
    show "in_flight (p_pc ((procs ?s1 ! pid)\<lparr>p_pc := Releasing\<rparr>))"
      by (simp add: in_flight_def)
  qed
  with Completing(4) show ?thesis by simp
next
  case (Retrying t)
  have "running_inv (set_proc pid (\<lambda>p. p\<lparr>p_pc := Delaying\<rparr>) s)"
    by (rule running_inv_stay[OF assms(2) Retrying(1)]) (simp_all add: in_flight_def)
  with Retrying(4) show ?thesis by simp
next
  case (Delaying t)
  let ?f = "\<lambda>t. t\<lparr>t_status := QUEUED\<rparr>"
  let ?g = "\<lambda>p. p\<lparr>p_pc := (if permits s > 0 then Acquired else Waiting), p_depth := Suc (p_depth p)\<rparr>"
  let ?s1 = "set_proc pid ?g (upd_task (p_task (procs s ! pid)) ?f s)"
  have "running_inv s' = running_inv ?s1"
    by (rule running_inv_cong) (simp_all add: Delaying(4) rescheduleTask_def Let_def)
  moreover have "running_inv ?s1"
    by (rule running_inv_leave[OF assms(2) Delaying(1)]) simp_all
  ultimately show ?thesis by simp
next
  case (Failing t)
  let ?s1 = "skipDependentTasks (p_task (procs s ! pid)) s"
  have "running_inv (set_proc pid (\<lambda>p. p\<lparr>p_pc := Releasing\<rparr>) ?s1)"
    by (rule running_inv_stay[OF running_inv_skipDependentTasks[OF assms(2)]])
       (use Failing in \<open>simp_all add: in_flight_def\<close>)
  with Failing(4) show ?thesis by simp
next
  case (Releasing t)
  let ?g = "\<lambda>p. if p_depth p = 0 then p\<lparr>p_pc := Finished\<rparr> else p\<lparr>p_depth := p_depth p - 1\<rparr>"
  let ?s1 = "set_proc pid ?g s"
  have s1: "running_inv ?s1"
    by (rule running_inv_stay[OF assms(2) Releasing(1)])
       (use Releasing in \<open>simp_all add: in_flight_def\<close>)
  have "running_inv (release ?s1)"
  proof (rule running_inv_release[OF s1], rule ballI)
    fix n assume "n \<in> set (waiting ?s1)"
    with assms(1) have n: "n < length (procs s)" "p_pc (procs s ! n) = Waiting"
      by (simp_all add: sem_inv_def)
    with Releasing(3) have "n \<noteq> pid" by auto
    with n show "n < length (procs ?s1) \<and> \<not> in_flight (p_pc (procs ?s1 ! n))"
      by (simp add: in_flight_def)
  qed
  with Releasing(4) show ?thesis by simp
qed

subsection \<open>The scheduler after loadPlan\<close>

lemma init_tasks_fields [simp]:
  "procs (init_tasks ts s) = procs s"
  "calls (init_tasks ts s) = calls s"
  "permits (init_tasks ts s) = permits s"
  "waiting (init_tasks ts s) = waiting s"
  "options (init_tasks ts s) = options s"
  by (induction ts arbitrary: s) simp_all

lemma add_edges_fields [simp]:
  "tasks (add_edges c ps s) = tasks s"
  "procs (add_edges c ps s) = procs s"
  "calls (add_edges c ps s) = calls s"
  "permits (add_edges c ps s) = permits s"
  "waiting (add_edges c ps s) = waiting s"
  "options (add_edges c ps s) = options s"
  by (induction ps arbitrary: s) simp_all

lemma build_graph_fields [simp]:
  "tasks (build_graph ts s) = tasks s"
  "procs (build_graph ts s) = procs s"
  "calls (build_graph ts s) = calls s"
  "permits (build_graph ts s) = permits s"
  "waiting (build_graph ts s) = waiting s"
  "options (build_graph ts s) = options s"
  by (induction ts arbitrary: s) simp_all

lemma loadPlan_fields [simp]:
  "procs (loadPlan ts (new_scheduler opts)) = []"
  "calls (loadPlan ts (new_scheduler opts)) = []"
  "permits (loadPlan ts (new_scheduler opts)) = maxConcurrency opts"
  "waiting (loadPlan ts (new_scheduler opts)) = []"
  "options (loadPlan ts (new_scheduler opts)) = opts"
  by (simp_all add: loadPlan_def reset_def new_scheduler_def)

lemma init_tasks_tasks:
  assumes "distinct (map fst (tasks s))"
    and "\<forall>k t. map_of (tasks s) k = Some t \<longrightarrow> normalised (options s) (seen @ ts) k t"
  shows "distinct (map fst (tasks (init_tasks ts s)))
         \<and> (\<forall>k t. map_of (tasks (init_tasks ts s)) k = Some t
                \<longrightarrow> normalised (options s) (seen @ ts) k t)"
  using assms
proof (induction ts arbitrary: s seen)
  case Nil
  then show ?case by simp
next
  case (Cons task ts)
  let ?t = "task\<lparr>t_status := PENDING, t_attempts := 0,
                  t_maxAttempts := (case t_maxAttempts task of
                                 None \<Rightarrow> Some (defaultMaxAttempts (options s))
                               | Some m \<Rightarrow> Some m)\<rparr>"
  let ?s1 = "s\<lparr>tasks := AList.update (t_id task) ?t (tasks s),
          indegree := AList.update (t_id task) 0 (indegree s),
          dependents := AList.update (t_id task) [] (dependents s)\<rparr>"
  have new: "normalised (options s) ((seen @ [task]) @ ts) (t_id task) ?t"
    by (auto simp: normalised_def declared_attempts_def split: option.splits)
  have d: "distinct (map fst (tasks ?s1))" using Cons.prems(1) by (simp add: distinct_update)
  have n: "\<forall>k t. map_of (tasks ?s1) k = Some t
            \<longrightarrow> normalised (options ?s1) ((seen @ [task]) @ ts) k t"
    using Cons.prems(2) new by (auto simp: update_conv')
  from Cons.IH[of ?s1 "seen @ [task]", OF d n] show ?case by simp
qed

lemma loadPlan_tasks:
  "distinct (map fst (tasks (loadPlan ts (new_scheduler opts))))"
  "map_of (tasks (loadPlan ts (new_scheduler opts))) k = Some t \<Longrightarrow> normalised opts ts k t"
proof -
  let ?s = "reset (new_scheduler opts)"
  have "distinct (map fst (tasks ?s))"
    and "\<forall>k t. map_of (tasks ?s) k = Some t \<longrightarrow> normalised (options ?s) ([] @ ts) k t"
    by (simp_all add: reset_def new_scheduler_def)
  from init_tasks_tasks[OF this]
  show "distinct (map fst (tasks (loadPlan ts (new_scheduler opts))))"
    and "map_of (tasks (loadPlan ts (new_scheduler opts))) k = Some t \<Longrightarrow> normalised opts ts k t"
    by (simp_all add: loadPlan_def reset_def new_scheduler_def)
qed

lemma sem_inv_loadPlan: "sem_inv (loadPlan ts (new_scheduler opts))"
  by (simp add: sem_inv_def)

lemma running_inv_loadPlan: "running_inv (loadPlan ts (new_scheduler opts))"
proof (rule running_invI)
  show "distinct (map fst (tasks (loadPlan ts (new_scheduler opts))))"
    by (rule loadPlan_tasks)
next
  fix k t
  assume "map_of (tasks (loadPlan ts (new_scheduler opts))) k = Some t" "t_status t = RUNNING"
  with loadPlan_tasks(2)[of ts opts k t] have False by (simp add: normalised_def)
  then show "\<exists>p \<in> set (procs (loadPlan ts (new_scheduler opts))).
               p_task p = k \<and> in_flight (p_pc p)" ..
qed

lemma run_start_Inr:
  assumes "run_start s = Some (Inr s0)"
  shows "s0 = fold scheduleTask (map t_id (getReadyTasks s)) s"
  using assms
  by (auto simp: run_start_def Let_def fold_map comp_def
           split: option.splits bool.splits if_splits)

lemma reaches_invariant:
  assumes "reaches X s0 s" and "I s0" and "\<And>s pid s'. I s \<Longrightarrow> step X s pid = Some s' \<Longrightarrow> I s'"
  shows "I s"
  using assms(1)
proof induction
  case reaches_start
  show ?case by (rule assms(2))
next
  case (reaches_step s pid s')
  then show ?case using assms(3) by blast
qed

subsection \<open>Counting the RUNNING tasks\<close>



lemma load_and_run_Inr:
  assumes "load_and_run opts ts = Some (Inr s0)"
  shows "s0 = fold scheduleTask (map t_id (getReadyTasks (loadPlan ts (new_scheduler opts))))
                (loadPlan ts (new_scheduler opts))"
  using assms by (simp add: load_and_run_def run_start_Inr)

lemma sem_running_start:
  assumes "load_and_run opts ts = Some (Inr s0)"
  shows "sem_inv s0" and "running_inv s0" and "options s0 = opts"
    and "0 \<le> maxConcurrency opts \<Longrightarrow> 0 \<le> permits s0"
proof -
  let ?s = "loadPlan ts (new_scheduler opts)"
  note s0 = load_and_run_Inr[OF assms]
  from sem_inv_fold_scheduleTask[OF sem_inv_loadPlan] s0 show "sem_inv s0" by simp
  from running_inv_fold_scheduleTask[OF running_inv_loadPlan] s0 show "running_inv s0" by simp
  from s0 show "options s0 = opts" by simp
  from permits_fold_scheduleTask[of ?s] s0
  show "0 \<le> maxConcurrency opts \<Longrightarrow> 0 \<le> permits s0" by simp
qed

lemma step_options: "step X s pid = Some s' \<Longrightarrow> options s' = options s"
  by (cases rule: step_cases) auto

lemma permits_step:
  assumes "0 \<le> permits s" and "step X s pid = Some s'"
  shows "0 \<le> permits s'"
  using assms(2)
proof (cases rule: step_cases)
  case (Completing t)
  obtain s1 nr where
    r: "release_children (children (dependents s) (p_task (procs s ! pid))) s [] = (s1, nr)"
    and o: "onTaskCompleted (p_task (procs s ! pid)) s = fold scheduleTask nr s1"
    by (rule onTaskCompleted_unfold)
  from release_children_fields[OF r] assms(1) have "0 \<le> permits s1" by simp
  from permits_fold_scheduleTask[OF this] o Completing(4) show ?thesis by simp
next
  case (Delaying t)
  with permits_rescheduleTask[OF assms(1)] show ?thesis by simp
next
  case (Releasing t)
  let ?g = "\<lambda>p. if p_depth p = 0 then p\<lparr>p_pc := Finished\<rparr> else p\<lparr>p_depth := p_depth p - 1\<rparr>"
  from assms(1) have "0 \<le> permits (set_proc pid ?g s)" by simp
  from permits_release[OF this] Releasing(4) show ?thesis by simp
qed (use assms(1) in simp_all)

subsection \<open>A step keeps the bound on the attempts\<close>

lemma attempts_inv_cong:
  assumes "tasks s' = tasks s" "procs s' = procs s" "calls s' = calls s" "options s' = options s"
  shows "attempts_inv s' = attempts_inv s"
  by (simp add: attempts_inv_def task_ok_def proc_ok_def attempts_bound_cong[OF assms(4)]
        max_attempts_cong[OF assms(4)] assms(1-3))

lemma task_ok_same:
  assumes "task_ok s k t"
    and "calls s' = calls s" and "options s' = options s"
    and "p_task ` set (procs s') = p_task ` set (procs s)"
  shows "task_ok s' k t"
  using assms(1,2,4)
  by (simp add: task_ok_def attempts_bound_cong[OF assms(3)] max_attempts_cong[OF assms(3)])

lemma attempts_bound_first:
  "allows (attempts_bound s t) 0" "allows (attempts_bound s t) 1"
  by (simp_all add: attempts_bound_def allows_first)

lemma attempts_inv_fail:
  assumes "attempts_inv s" and "map_of (tasks s) tid = Some t0"
    and "\<not> int_less (t_attempts t0) (max_attempts s t0)"
  shows "attempts_inv (upd_task tid (\<lambda>t. t\<lparr>t_status := FAILED, t_error := Some e\<rparr>) s)"
    (is "attempts_inv (upd_task tid ?f s)")
proof (rule attempts_invI)
  show "distinct (map p_task (procs (upd_task tid ?f s)))"
    using attempts_invD(1)[OF assms(1)] by simp
next
  fix k t assume a: "map_of (tasks (upd_task tid ?f s)) k = Some t"
  show "task_ok (upd_task tid ?f s) k t"
  proof (cases "k = tid")
    case True
    with a assms(2) have t: "t = ?f t0" by auto
    from attempts_invD(2)[OF assms(1) assms(2)] assms(3) show ?thesis
      by (simp add: t True task_ok_def attempts_bound_def max_attempts_def cong: option.case_cong)
  next
    case False
    with a have "map_of (tasks s) k = Some t" by simp
    from task_ok_cong[OF attempts_invD(2)[OF assms(1) this], of "upd_task tid ?f s"]
    show ?thesis by simp
  qed
next
  fix p t assume p: "p \<in> set (procs (upd_task tid ?f s))"
    and a: "map_of (tasks (upd_task tid ?f s)) (p_task p) = Some t"
  from p have p': "p \<in> set (procs s)" by simp
  show "proc_ok (upd_task tid ?f s) p t"
  proof (cases "p_task p = tid")
    case True
    with a assms(2) have t: "t = ?f t0" by auto
    from True assms(2) have "map_of (tasks s) (p_task p) = Some t0" by simp
    from attempts_invD(3)[OF assms(1) p' this] show ?thesis
      by (simp add: t proc_ok_def attempts_bound_def max_attempts_def cong: option.case_cong)
  next
    case False
    with a have "map_of (tasks s) (p_task p) = Some t" by simp
    from proc_ok_cong[OF attempts_invD(3)[OF assms(1) p' this], of "upd_task tid ?f s"]
    show ?thesis by simp
  qed
qed

lemma attempts_inv_set_proc:
  assumes "attempts_inv s" and "pid < length (procs s)"
    and "p_task (g (procs s ! pid)) = p_task (procs s ! pid)"
    and "\<And>t. map_of (tasks s) (p_task (procs s ! pid)) = Some t
           \<Longrightarrow> proc_ok s (procs s ! pid) t \<Longrightarrow> proc_ok s (g (procs s ! pid)) t"
  shows "attempts_inv (set_proc pid g s)"
proof (rule attempts_invI)
  have m: "map p_task (procs (set_proc pid g s)) = map p_task (procs s)"
    using assms(2,3) by (simp add: map_update list_update_same_conv)
  then have i: "p_task ` set (procs (set_proc pid g s)) = p_task ` set (procs s)"
    by (metis set_map)
  show "distinct (map p_task (procs (set_proc pid g s)))"
    using attempts_invD(1)[OF assms(1)] m by simp
  show "task_ok (set_proc pid g s) k t" if "map_of (tasks (set_proc pid g s)) k = Some t" for k t
  proof -
    from that have "map_of (tasks s) k = Some t" by simp
    from task_ok_same[OF attempts_invD(2)[OF assms(1) this] _ _ i] show ?thesis by simp
  qed
  show "proc_ok (set_proc pid g s) p t"
    if p: "p \<in> set (procs (set_proc pid g s))"
      and t: "map_of (tasks (set_proc pid g s)) (p_task p) = Some t" for p t
  proof -
    from p obtain j where j: "j < length (procs s)" "p = (procs s)[pid := g (procs s ! pid)] ! j"
      by (auto simp: in_set_conv_nth)
    have "proc_ok s p t"
    proof (cases "j = pid")
      case True
      with j have pg: "p = g (procs s ! pid)" by simp
      with t assms(3) have t': "map_of (tasks s) (p_task (procs s ! pid)) = Some t" by simp
      from assms(2) have "procs s ! pid \<in> set (procs s)" by simp
      from assms(4)[OF t' attempts_invD(3)[OF assms(1) this t']] pg show ?thesis by simp
    next
      case False
      with j have "p = procs s ! j" by simp
      with j(1) have "p \<in> set (procs s)" by simp
      from attempts_invD(3)[OF assms(1) this] t show ?thesis by simp
    qed
    from proc_ok_cong[OF this, of "set_proc pid g s"] show ?thesis by simp
  qed
qed

lemma attempts_inv_scheduleTask:
  assumes "attempts_inv s" and "map_of (tasks s) tid = Some t0" and "t_status t0 = PENDING"
  shows "attempts_inv (scheduleTask tid s)"
proof (rule attempts_invI)
  let ?f = "\<lambda>t. t\<lparr>t_status := QUEUED\<rparr>"
  let ?s1 = "upd_task tid ?f s"
  let ?new = "\<lparr>p_task = tid, p_pc = (if permits s > 0 then Acquired else Waiting), p_depth = 0\<rparr>"
  have inert: "inert ?f" by (simp add: inert_def)
  have s1: "attempts_inv ?s1" by (rule attempts_inv_inert[OF assms(1) inert])
  from attempts_invD(2)[OF assms(1) assms(2)] assms(3)
  have fresh: "tid \<notin> p_task ` set (procs s)" and zero: "t_attempts t0 = 0"
    by (simp_all add: task_ok_def)
  show "distinct (map p_task (procs (scheduleTask tid s)))"
    using attempts_invD(1)[OF assms(1)] fresh by simp
  show "task_ok (scheduleTask tid s) k t" if a: "map_of (tasks (scheduleTask tid s)) k = Some t"
    for k t
  proof -
    from a have a1: "map_of (tasks ?s1) k = Some t" by simp
    from attempts_invD(2)[OF s1 a1] have ok: "task_ok ?s1 k t" .
    have "t_status t = PENDING \<Longrightarrow> k \<noteq> tid"
    proof
      assume "t_status t = PENDING" "k = tid"
      with a1 assms(2) show False by auto
    qed
    with ok show ?thesis
      by (auto simp: task_ok_def attempts_bound_def max_attempts_def cong: option.case_cong)
  qed
  show "proc_ok (scheduleTask tid s) p t"
    if p: "p \<in> set (procs (scheduleTask tid s))"
      and a: "map_of (tasks (scheduleTask tid s)) (p_task p) = Some t" for p t
  proof -
    from a have a1: "map_of (tasks ?s1) (p_task p) = Some t" by simp
    from p consider "p \<in> set (procs ?s1)" | "p = ?new" by auto
    then show ?thesis
    proof cases
      case 1
      from proc_ok_cong[OF attempts_invD(3)[OF s1 1 a1], of "scheduleTask tid s"]
      show ?thesis by simp
    next
      case 2
      with a1 assms(2) have "t = ?f t0" by auto
      with zero attempts_bound_first(2)[of "scheduleTask tid s" t] 2 show ?thesis
        by (simp add: proc_ok_def)
    qed
  qed
qed

lemma attempts_inv_fold_scheduleTask:
  assumes "attempts_inv s" and "distinct ids"
    and "\<forall>tid \<in> set ids. \<exists>t. map_of (tasks s) tid = Some t \<and> t_status t = PENDING"
  shows "attempts_inv (fold scheduleTask ids s)"
  using assms
proof (induction ids arbitrary: s)
  case Nil
  then show ?case by simp
next
  case (Cons tid ids)
  from Cons.prems(3) obtain t0 where t0: "map_of (tasks s) tid = Some t0" "t_status t0 = PENDING"
    by auto
  have 1: "attempts_inv (scheduleTask tid s)"
    by (rule attempts_inv_scheduleTask[OF Cons.prems(1) t0])
  have 2: "distinct ids" using Cons.prems(2) by simp
  have 3: "\<forall>k \<in> set ids. \<exists>t. map_of (tasks (scheduleTask tid s)) k = Some t \<and> t_status t = PENDING"
  proof
    fix k assume k: "k \<in> set ids"
    with Cons.prems(2) have "k \<noteq> tid" by auto
    with Cons.prems(3) k show "\<exists>t. map_of (tasks (scheduleTask tid s)) k = Some t \<and> t_status t = PENDING"
      by simp
  qed
  from Cons.IH[OF 1 2 3] show ?case by simp
qed

lemma indegree_of_update [simp]:
  "indegree_of (s\<lparr>indegree := AList.update c v (indegree s)\<rparr>) k
   = (if k = c then v else indegree_of s k)"
  by (simp add: indegree_of_def update_conv')

lemma release_children_newlyReady:
  assumes "release_children cs s nr = (s', nr')"
    and "distinct nr"
    and "\<forall>c \<in> set nr. indegree_of s c \<le> 0
           \<and> (\<exists>t. map_of (tasks s) c = Some t \<and> t_status t = PENDING)"
  shows "distinct nr'
         \<and> (\<forall>c \<in> set nr'. indegree_of s' c \<le> 0
               \<and> (\<exists>t. map_of (tasks s) c = Some t \<and> t_status t = PENDING))"
  using assms
proof (induction cs arbitrary: s nr)
  case Nil
  then show ?case by simp
next
  case (Cons c cs)
  let ?v = "indegree_of s c - 1"
  let ?s1 = "s\<lparr>indegree := AList.update c ?v (indegree s)\<rparr>"
  let ?ready = "?v = 0 \<and> (case map_of (tasks ?s1) c of None \<Rightarrow> False | Some t \<Rightarrow> t_status t = PENDING)"
  have tasks1: "tasks ?s1 = tasks s" by simp
  show ?case
  proof (cases ?ready)
    case True
    with Cons.prems(1) have r: "release_children cs ?s1 (nr @ [c]) = (s', nr')"
      by (auto simp: Let_def split: if_splits)
    from True obtain t where t: "map_of (tasks s) c = Some t" "t_status t = PENDING"
      by (auto split: option.splits)
    from True have "indegree_of s c = 1" by simp
    with Cons.prems(3) have "c \<notin> set nr" by auto
    with Cons.prems(2) have d: "distinct (nr @ [c])" by simp
    have "\<forall>k \<in> set (nr @ [c]). indegree_of ?s1 k \<le> 0
           \<and> (\<exists>t. map_of (tasks ?s1) k = Some t \<and> t_status t = PENDING)"
      using Cons.prems(3) True t by auto
    from Cons.IH[OF r d this] show ?thesis by simp
  next
    case False
    with Cons.prems(1) have r: "release_children cs ?s1 nr = (s', nr')"
      by (auto simp: Let_def split: if_splits)
    have "\<forall>k \<in> set nr. indegree_of ?s1 k \<le> 0
           \<and> (\<exists>t. map_of (tasks ?s1) k = Some t \<and> t_status t = PENDING)"
      using Cons.prems(3) by auto
    from Cons.IH[OF r Cons.prems(2) this] show ?thesis by simp
  qed
qed

lemma attempts_inv_onTaskCompleted:
  assumes "attempts_inv s"
  shows "attempts_inv (onTaskCompleted tid s)"
proof -
  obtain s1 nr where r: "release_children (children (dependents s) tid) s [] = (s1, nr)"
    and o: "onTaskCompleted tid s = fold scheduleTask nr s1"
    by (rule onTaskCompleted_unfold)
  from release_children_fields[OF r] have f: "tasks s1 = tasks s" "procs s1 = procs s"
    "calls s1 = calls s" "options s1 = options s" by simp_all
  then have "attempts_inv s1 = attempts_inv s" by (rule attempts_inv_cong)
  with assms have 1: "attempts_inv s1" by simp
  from release_children_newlyReady[OF r] f(1)
  have "distinct nr" "\<forall>c \<in> set nr. \<exists>t. map_of (tasks s1) c = Some t \<and> t_status t = PENDING"
    by simp_all
  from attempts_inv_fold_scheduleTask[OF 1 this] o show ?thesis by simp
qed

lemma attempts_inv_skip_one:
  assumes "attempts_inv s"
  shows "attempts_inv (skip_one f k s)"
proof -
  let ?f = "\<lambda>t. t\<lparr>t_status := SKIPPED, t_error := Some (skip_message f)\<rparr>"
  have "inert ?f" by (simp add: inert_def)
  from attempts_inv_inert[OF assms this, of k]
  have "attempts_inv (upd_task k ?f s)" .
  moreover have "attempts_inv (skip_one f k s) = attempts_inv (upd_task k ?f s)"
    by (intro attempts_inv_cong) simp_all
  ultimately show ?thesis by simp
qed

lemma attempts_inv_skipDependentTasks:
  assumes "attempts_inv s"
  shows "attempts_inv (skipDependentTasks f s)"
proof -
  have "attempts_inv s \<Longrightarrow> attempts_inv (fold (skip_one f) ks s)" for ks s
    by (induction ks arbitrary: s) (simp_all add: attempts_inv_skip_one)
  with assms show ?thesis by (simp add: skipDependentTasks_def)
qed

lemma attempts_inv_release:
  assumes "attempts_inv s"
    and "\<forall>n \<in> set (waiting s). n < length (procs s) \<and> p_pc (procs s ! n) = Waiting"
  shows "attempts_inv (release s)"
proof (cases "waiting s")
  case Nil
  have "attempts_inv (release s) = attempts_inv s"
    by (rule attempts_inv_cong) (simp_all add: release_def Nil)
  with assms show ?thesis by simp
next
  case (Cons n rest)
  let ?s1 = "s\<lparr>permits := permits s + 1 - 1, waiting := rest\<rparr>"
  have s1: "attempts_inv ?s1" using assms(1) attempts_inv_cong[of ?s1 s] by simp
  have r: "release s = set_proc n (\<lambda>p. p\<lparr>p_pc := Acquired\<rparr>) ?s1"
    by (simp add: release_def Cons)
  from assms(2) Cons have n: "n < length (procs ?s1)" "p_pc (procs ?s1 ! n) = Waiting"
    by simp_all
  have "attempts_inv (set_proc n (\<lambda>p. p\<lparr>p_pc := Acquired\<rparr>) ?s1)"
    by (rule attempts_inv_set_proc[OF s1 n(1)]) (use n(2) in \<open>simp_all add: proc_ok_def\<close>)
  with r show ?thesis by simp
qed

lemma other_proc_other_task:
  assumes "distinct (map p_task ps)" and "j < length ps" and "pid < length ps" and "j \<noteq> pid"
  shows "p_task (ps ! j) \<noteq> p_task (ps ! pid)"
  using assms nth_eq_iff_index_eq[of "map p_task ps" j pid] by simp

text \<open>The start of \<open>executeTask\<close>: RUNNING and one more attempt.\<close>

lemma attempts_inv_start:
  assumes "attempts_inv s" and "pid < length (procs s)"
    and "map_of (tasks s) (p_task (procs s ! pid)) = Some t0"
    and "p_pc (procs s ! pid) = Acquired"
  shows "attempts_inv (set_proc pid (\<lambda>p. p\<lparr>p_pc := Started\<rparr>)
           (upd_task (p_task (procs s ! pid))
              (\<lambda>t. t\<lparr>t_status := RUNNING, t_attempts := t_attempts t + 1\<rparr>) s))"
    (is "attempts_inv ?s'")
proof (rule attempts_invI)
  let ?tid = "p_task (procs s ! pid)"
  let ?f = "\<lambda>t. t\<lparr>t_status := RUNNING, t_attempts := t_attempts t + 1\<rparr>"
  let ?g = "\<lambda>p. p\<lparr>p_pc := Started\<rparr>"
  have pin: "procs s ! pid \<in> set (procs s)" using assms(2) by simp
  have d: "distinct (map p_task (procs s))" by (rule attempts_invD(1)[OF assms(1)])
  have t0: "task_ok s ?tid t0" by (rule attempts_invD(2)[OF assms(1) assms(3)])
  have p0: "proc_ok s (procs s ! pid) t0" by (rule attempts_invD(3)[OF assms(1) pin assms(3)])
  have m: "map p_task (procs ?s') = map p_task (procs s)"
    using assms(2) by (simp add: map_update list_update_same_conv)
  then have i: "p_task ` set (procs ?s') = p_task ` set (procs s)" by (metis set_map)
  have b: "attempts_bound ?s' (?f t0) = attempts_bound s t0"
    by (simp add: attempts_bound_def max_attempts_def cong: option.case_cong)
  show "distinct (map p_task (procs ?s'))" using d m by simp
  show "task_ok ?s' k t" if a: "map_of (tasks ?s') k = Some t" for k t
  proof (cases "k = ?tid")
    case True
    with a assms(3) have t: "t = ?f t0" by auto
    from t0 p0 assms(4) b show ?thesis
      by (simp add: t True task_ok_def proc_ok_def)
  next
    case False
    with a have "map_of (tasks s) k = Some t" by simp
    from task_ok_same[OF attempts_invD(2)[OF assms(1) this] _ _ i] show ?thesis by simp
  qed
  show "proc_ok ?s' p t" if p: "p \<in> set (procs ?s')"
    and a: "map_of (tasks ?s') (p_task p) = Some t" for p t
  proof -
    from p obtain j where j: "j < length (procs s)" "p = (procs s)[pid := ?g (procs s ! pid)] ! j"
      by (auto simp: in_set_conv_nth)
    show ?thesis
    proof (cases "j = pid")
      case True
      with j have pg: "p = ?g (procs s ! pid)" by simp
      with a assms(3) have t: "t = ?f t0" by auto
      from t0 show ?thesis by (simp add: pg t proc_ok_def task_ok_def)
    next
      case False
      with j have pj: "p = procs s ! j" by simp
      with j(1) have pin': "p \<in> set (procs s)" by simp
      from other_proc_other_task[OF d j(1) assms(2) False] pj have "p_task p \<noteq> ?tid" by simp
      with a have "map_of (tasks s) (p_task p) = Some t" by simp
      from proc_ok_cong[OF attempts_invD(3)[OF assms(1) pin' this], of ?s'] show ?thesis by simp
    qed
  qed
qed

text \<open>The invocation of the executor.\<close>

lemma attempts_inv_call:
  assumes "attempts_inv s" and "pid < length (procs s)"
    and "map_of (tasks s) (p_task (procs s ! pid)) = Some t0"
    and "p_pc (procs s ! pid) = Started"
  shows "attempts_inv (set_proc pid (\<lambda>p. p\<lparr>p_pc := Executing\<rparr>)
           (s\<lparr>calls := calls s @ [p_task (procs s ! pid)]\<rparr>))"
    (is "attempts_inv ?s'")
proof (rule attempts_invI)
  let ?tid = "p_task (procs s ! pid)"
  let ?g = "\<lambda>p. p\<lparr>p_pc := Executing\<rparr>"
  have pin: "procs s ! pid \<in> set (procs s)" using assms(2) by simp
  have d: "distinct (map p_task (procs s))" by (rule attempts_invD(1)[OF assms(1)])
  have p0: "proc_ok s (procs s ! pid) t0" by (rule attempts_invD(3)[OF assms(1) pin assms(3)])
  have m: "map p_task (procs ?s') = map p_task (procs s)"
    using assms(2) by (simp add: map_update list_update_same_conv)
  then have i: "p_task ` set (procs ?s') = p_task ` set (procs s)" by (metis set_map)
  have b: "attempts_bound ?s' t = attempts_bound s t" "max_attempts ?s' t = max_attempts s t" for t
    by (simp_all add: attempts_bound_def max_attempts_def cong: option.case_cong)
  show "distinct (map p_task (procs ?s'))" using d m by simp
  show "task_ok ?s' k t" if a: "map_of (tasks ?s') k = Some t" for k t
  proof -
    from a have a': "map_of (tasks s) k = Some t" by simp
    have ok: "task_ok s k t" by (rule attempts_invD(2)[OF assms(1) a'])
    show ?thesis
    proof (cases "k = ?tid")
      case True
      with a' assms(3) have "t = t0" by simp
      with ok p0 assms(4) i show ?thesis
        unfolding task_ok_def proc_ok_def b by (simp add: True)
    next
      case False
      with ok i show ?thesis unfolding task_ok_def b by simp
    qed
  qed
  show "proc_ok ?s' p t" if p: "p \<in> set (procs ?s')"
    and a: "map_of (tasks ?s') (p_task p) = Some t" for p t
  proof -
    from p obtain j where j: "j < length (procs s)" "p = (procs s)[pid := ?g (procs s ! pid)] ! j"
      by (auto simp: in_set_conv_nth)
    show ?thesis
    proof (cases "j = pid")
      case True
      with j have pg: "p = ?g (procs s ! pid)" by simp
      show ?thesis by (simp add: pg proc_ok_def)
    next
      case False
      with j have pj: "p = procs s ! j" by simp
      with j(1) have pin': "p \<in> set (procs s)" by simp
      from other_proc_other_task[OF d j(1) assms(2) False] pj have ne: "p_task p \<noteq> ?tid" by simp
      from a have "map_of (tasks s) (p_task p) = Some t" by simp
      from attempts_invD(3)[OF assms(1) pin' this] ne show ?thesis
        unfolding proc_ok_def b by simp
    qed
  qed
qed

lemma attempts_inv_rescheduleTask:
  assumes "attempts_inv s" and "pid < length (procs s)"
    and "p_pc (procs s ! pid) = Delaying"
  shows "attempts_inv (rescheduleTask pid (p_task (procs s ! pid)) s)"
proof -
  let ?tid = "p_task (procs s ! pid)"
  let ?f = "\<lambda>t. t\<lparr>t_status := QUEUED\<rparr>"
  let ?g = "\<lambda>p. p\<lparr>p_pc := (if permits s > 0 then Acquired else Waiting), p_depth := Suc (p_depth p)\<rparr>"
  let ?s1 = "upd_task ?tid ?f s"
  have "inert ?f" by (simp add: inert_def)
  from attempts_inv_inert[OF assms(1) this] have s1: "attempts_inv ?s1" .
  have "attempts_inv (set_proc pid ?g ?s1)"
    by (rule attempts_inv_set_proc[OF s1]) (use assms(2,3) in \<open>simp_all add: proc_ok_def\<close>)
  moreover have "attempts_inv (rescheduleTask pid ?tid s) = attempts_inv (set_proc pid ?g ?s1)"
    by (rule attempts_inv_cong) (simp_all add: rescheduleTask_def Let_def)
  ultimately show ?thesis by simp
qed

lemma attempts_inv_step:
  assumes "sem_inv s" and "attempts_inv s" and "step X s pid = Some s'"
  shows "attempts_inv s'"
  using assms(3)
proof (cases rule: step_cases)
  case (Acquired t)
  let ?f = "\<lambda>t. t\<lparr>t_status := RUNNING, t_attempts := t_attempts t + 1\<rparr>"
  let ?s1 = "set_proc pid (\<lambda>p. p\<lparr>p_pc := Started\<rparr>) (upd_task (p_task (procs s ! pid)) ?f s)"
  have "attempts_inv s' = attempts_inv ?s1"
    by (rule attempts_inv_cong) (simp_all add: Acquired(4))
  with attempts_inv_start[OF assms(2) Acquired(1,2,3)] show ?thesis by simp
next
  case (Started t)
  from attempts_inv_call[OF assms(2) Started(1,2,3)] Started(4) show ?thesis by simp
next
  case (Resolved t res)
  let ?f = "\<lambda>t. t\<lparr>t_status := COMPLETED, t_result := Some res\<rparr>"
  let ?s0 = "upd_task (p_task (procs s ! pid)) ?f s"
  let ?s1 = "set_proc pid (\<lambda>p. p\<lparr>p_pc := Completing\<rparr>) ?s0"
  have "inert ?f" by (simp add: inert_def)
  from attempts_inv_inert[OF assms(2) this] have s0: "attempts_inv ?s0" .
  have "attempts_inv s' = attempts_inv ?s1"
    by (rule attempts_inv_cong) (simp_all add: Resolved(5))
  moreover have "attempts_inv ?s1"
    by (rule attempts_inv_set_proc[OF s0]) (use Resolved(1) in \<open>simp_all add: proc_ok_def\<close>)
  ultimately show ?thesis by simp
next
  case (Retry t errorMessage)
  let ?s1 = "set_proc pid (\<lambda>p. p\<lparr>p_pc := Retrying\<rparr>) s"
  have "attempts_inv s' = attempts_inv ?s1"
    by (rule attempts_inv_cong) (simp_all add: Retry(6))
  moreover have "attempts_inv ?s1"
  proof (rule attempts_inv_set_proc[OF assms(2) Retry(1)])
    show "p_task ((procs s ! pid)\<lparr>p_pc := Retrying\<rparr>) = p_task (procs s ! pid)" by simp
  next
    fix t' assume "map_of (tasks s) (p_task (procs s ! pid)) = Some t'"
    with Retry(2) have "t' = t" by simp
    with int_less_allows[OF Retry(5)]
    show "proc_ok s ((procs s ! pid)\<lparr>p_pc := Retrying\<rparr>) t'"
      by (simp add: proc_ok_def attempts_bound_def)
  qed
  ultimately show ?thesis by simp
next
  case (Exhausted t errorMessage)
  let ?f = "\<lambda>t. t\<lparr>t_status := FAILED, t_error := Some errorMessage\<rparr>"
  let ?s0 = "upd_task (p_task (procs s ! pid)) ?f s"
  let ?s1 = "set_proc pid (\<lambda>p. p\<lparr>p_pc := Failing\<rparr>) ?s0"
  from attempts_inv_fail[OF assms(2) Exhausted(2,5)] have s0: "attempts_inv ?s0" .
  have "attempts_inv s' = attempts_inv ?s1"
    by (rule attempts_inv_cong) (simp_all add: Exhausted(6))
  moreover have "attempts_inv ?s1"
    by (rule attempts_inv_set_proc[OF s0]) (use Exhausted(1) in \<open>simp_all add: proc_ok_def\<close>)
  ultimately show ?thesis by simp
next
  case (Completing t)
  let ?s1 = "onTaskCompleted (p_task (procs s ! pid)) s"
  have "attempts_inv (set_proc pid (\<lambda>p. p\<lparr>p_pc := Releasing\<rparr>) ?s1)"
    by (rule attempts_inv_set_proc[OF attempts_inv_onTaskCompleted[OF assms(2)]
              onTaskCompleted_nth(2)[OF Completing(1)]])
       (simp_all add: proc_ok_def)
  with Completing(4) show ?thesis by simp
next
  case (Retrying t)
  have "attempts_inv (set_proc pid (\<lambda>p. p\<lparr>p_pc := Delaying\<rparr>) s)"
    by (rule attempts_inv_set_proc[OF assms(2) Retrying(1)])
       (use Retrying(3) in \<open>simp_all add: proc_ok_def\<close>)
  with Retrying(4) show ?thesis by simp
next
  case (Delaying t)
  from attempts_inv_rescheduleTask[OF assms(2) Delaying(1,3)] Delaying(4) show ?thesis by simp
next
  case (Failing t)
  let ?s1 = "skipDependentTasks (p_task (procs s ! pid)) s"
  have "attempts_inv (set_proc pid (\<lambda>p. p\<lparr>p_pc := Releasing\<rparr>) ?s1)"
    by (rule attempts_inv_set_proc[OF attempts_inv_skipDependentTasks[OF assms(2)]])
       (use Failing(1) in \<open>simp_all add: proc_ok_def\<close>)
  with Failing(4) show ?thesis by simp
next
  case (Releasing t)
  let ?g = "\<lambda>p. if p_depth p = 0 then p\<lparr>p_pc := Finished\<rparr> else p\<lparr>p_depth := p_depth p - 1\<rparr>"
  let ?s1 = "set_proc pid ?g s"
  have s1: "attempts_inv ?s1"
    by (rule attempts_inv_set_proc[OF assms(2) Releasing(1)])
       (use Releasing(3) in \<open>simp_all add: proc_ok_def\<close>)
  have "attempts_inv (release ?s1)"
  proof (rule attempts_inv_release[OF s1], rule ballI)
    fix n assume "n \<in> set (waiting ?s1)"
    with assms(1) have n: "n < length (procs s)" "p_pc (procs s ! n) = Waiting"
      by (simp_all add: sem_inv_def)
    with Releasing(3) have "n \<noteq> pid" by auto
    with n show "n < length (procs ?s1) \<and> p_pc (procs ?s1 ! n) = Waiting" by simp
  qed
  with Releasing(4) show ?thesis by simp
qed

subsection \<open>The stored bounds never change\<close>

lemma bounds_cong: "tasks s' = tasks s \<Longrightarrow> bounds s' = bounds s"
  by (simp add: bounds_def)

lemma bounds_upd_task:
  assumes "\<And>t. t_maxAttempts (f t) = t_maxAttempts t"
  shows "bounds (upd_task tid f s) = bounds s"
  by (auto simp: bounds_def upd_task_def assms)

lemma bounds_scheduleTask [simp]: "bounds (scheduleTask tid s) = bounds s"
proof -
  have "bounds (scheduleTask tid s) = bounds (upd_task tid (\<lambda>t. t\<lparr>t_status := QUEUED\<rparr>) s)"
    by (rule bounds_cong) simp
  then show ?thesis by (simp add: bounds_upd_task)
qed

lemma bounds_fold_scheduleTask [simp]: "bounds (fold scheduleTask ids s) = bounds s"
  by (induction ids arbitrary: s) simp_all

lemma bounds_onTaskCompleted [simp]: "bounds (onTaskCompleted tid s) = bounds s"
proof -
  obtain s1 nr where r: "release_children (children (dependents s) tid) s [] = (s1, nr)"
    and o: "onTaskCompleted tid s = fold scheduleTask nr s1"
    by (rule onTaskCompleted_unfold)
  from release_children_fields[OF r] have "bounds s1 = bounds s" by (intro bounds_cong) simp
  with o show ?thesis by simp
qed

lemma bounds_skip_one [simp]: "bounds (skip_one f k s) = bounds s"
proof -
  have "bounds (skip_one f k s)
        = bounds (upd_task k (\<lambda>t. t\<lparr>t_status := SKIPPED, t_error := Some (skip_message f)\<rparr>) s)"
    by (rule bounds_cong) simp
  then show ?thesis by (simp add: bounds_upd_task)
qed

lemma bounds_skipDependentTasks [simp]: "bounds (skipDependentTasks f s) = bounds s"
proof -
  have "bounds (fold (skip_one f) ks s) = bounds s" for ks s
    by (induction ks arbitrary: s) simp_all
  then show ?thesis by (simp add: skipDependentTasks_def)
qed

lemma bounds_rescheduleTask [simp]: "bounds (rescheduleTask pid tid s) = bounds s"
proof -
  have "bounds (rescheduleTask pid tid s) = bounds (upd_task tid (\<lambda>t. t\<lparr>t_status := QUEUED\<rparr>) s)"
    by (rule bounds_cong) simp
  then show ?thesis by (simp add: bounds_upd_task)
qed

lemma bounds_step:
  assumes "step X s pid = Some s'"
  shows "bounds s' = bounds s"
  using assms
proof (cases rule: step_cases)
  case (Acquired t)
  let ?f = "\<lambda>t. t\<lparr>t_status := RUNNING, t_attempts := t_attempts t + 1\<rparr>"
  have "bounds s' = bounds (upd_task (p_task (procs s ! pid)) ?f s)"
    by (rule bounds_cong) (simp add: Acquired(4))
  then show ?thesis by (simp add: bounds_upd_task)
next
  case (Started t)
  show ?thesis by (rule bounds_cong) (simp add: Started(4))
next
  case (Resolved t res)
  let ?f = "\<lambda>t. t\<lparr>t_status := COMPLETED, t_result := Some res\<rparr>"
  have "bounds s' = bounds (upd_task (p_task (procs s ! pid)) ?f s)"
    by (rule bounds_cong) (simp add: Resolved(5))
  then show ?thesis by (simp add: bounds_upd_task)
next
  case (Retry t errorMessage)
  show ?thesis by (rule bounds_cong) (simp add: Retry(6))
next
  case (Exhausted t errorMessage)
  let ?f = "\<lambda>t. t\<lparr>t_status := FAILED, t_error := Some errorMessage\<rparr>"
  have "bounds s' = bounds (upd_task (p_task (procs s ! pid)) ?f s)"
    by (rule bounds_cong) (simp add: Exhausted(6))
  then show ?thesis by (simp add: bounds_upd_task)
next
  case (Completing t)
  have "bounds s' = bounds (onTaskCompleted (p_task (procs s ! pid)) s)"
    by (rule bounds_cong) (simp add: Completing(4))
  then show ?thesis by simp
next
  case (Retrying t)
  show ?thesis by (rule bounds_cong) (simp add: Retrying(4))
next
  case (Delaying t)
  then show ?thesis by simp
next
  case (Failing t)
  have "bounds s' = bounds (skipDependentTasks (p_task (procs s ! pid)) s)"
    by (rule bounds_cong) (simp add: Failing(4))
  then show ?thesis by simp
next
  case (Releasing t)
  show ?thesis by (rule bounds_cong) (simp add: Releasing(4))
qed

lemma bounds_lookup:
  "map_of (bounds s) k = map_option t_maxAttempts (map_of (tasks s) k)"
  by (simp add: bounds_def map_of_map)

subsection \<open>The initial batch\<close>

lemma distinct_map_insort_key:
  "distinct (map g (insort_key f x xs)) = (g x \<notin> g ` set xs \<and> distinct (map g xs))"
  by (induction xs) (auto simp: set_insort_key)

lemma distinct_map_sort_key: "distinct (map g (sort_key f xs)) = distinct (map g xs)"
  by (induction xs) (simp_all add: distinct_map_insort_key)

lemma attempts_inv_loadPlan: "attempts_inv (loadPlan ts (new_scheduler opts))"
proof (rule attempts_invI)
  let ?s = "loadPlan ts (new_scheduler opts)"
  show "distinct (map p_task (procs ?s))" by simp
  show "task_ok ?s k t" if "map_of (tasks ?s) k = Some t" for k t
    using loadPlan_tasks(2)[OF that] attempts_bound_first(1)[of ?s t]
    by (simp add: task_ok_def normalised_def)
  show "proc_ok ?s p t" if "p \<in> set (procs ?s)" for p t
    using that by simp
qed

lemma initial_batch:
  fixes ts opts
  defines "s \<equiv> loadPlan ts (new_scheduler opts)"
  shows "distinct (map t_id (getReadyTasks s))"
    and "\<forall>tid \<in> set (map t_id (getReadyTasks s)).
           \<exists>t. map_of (tasks s) tid = Some t \<and> t_status t = PENDING"
proof -
  have d: "distinct (map fst (tasks s))" unfolding s_def by (rule loadPlan_tasks)
  have id: "t_id t = k" if "(k, t) \<in> set (tasks s)" for k t
  proof -
    from that d have "map_of (tasks s) k = Some t" by simp
    from loadPlan_tasks(2)[OF this[unfolded s_def]] show ?thesis by (simp add: normalised_def)
  qed
  then have "map t_id (map snd (tasks s)) = map fst (tasks s)" by auto
  with d have "distinct (map t_id (map snd (tasks s)))" by (simp only:)
  then show "distinct (map t_id (getReadyTasks s))"
    by (simp add: getReadyTasks_def distinct_map_sort_key distinct_map_filter)
  show "\<forall>tid \<in> set (map t_id (getReadyTasks s)).
           \<exists>t. map_of (tasks s) tid = Some t \<and> t_status t = PENDING"
  proof
    fix tid assume "tid \<in> set (map t_id (getReadyTasks s))"
    then obtain k t where t: "(k, t) \<in> set (tasks s)" "t_status t = PENDING" "tid = t_id t"
      by (auto simp: getReadyTasks_def)
    with id[OF t(1)] d have "map_of (tasks s) tid = Some t" by simp
    with t(2) show "\<exists>t. map_of (tasks s) tid = Some t \<and> t_status t = PENDING" by blast
  qed
qed

lemma attempts_start:
  assumes "load_and_run opts ts = Some (Inr s0)"
  shows "attempts_inv s0" and "bounds s0 = bounds (loadPlan ts (new_scheduler opts))"
proof -
  note s0 = load_and_run_Inr[OF assms]
  from attempts_inv_fold_scheduleTask[OF attempts_inv_loadPlan initial_batch] s0
  show "attempts_inv s0" by simp
  from s0 show "bounds s0 = bounds (loadPlan ts (new_scheduler opts))" by simp
qed

lemma init_tasks_keys:
  "fst ` set (tasks (init_tasks ts s)) = fst ` set (tasks s) \<union> t_id ` set ts"
proof (induction ts arbitrary: s)
  case Nil
  show ?case by simp
next
  case (Cons task ts)
  show ?case by (simp add: Cons dom_update[simplified dom_map_of_conv_image_fst] insert_commute)
qed

lemma loadPlan_keys: "fst ` set (tasks (loadPlan ts (new_scheduler opts))) = t_id ` set ts"
  by (simp add: loadPlan_def init_tasks_keys reset_def new_scheduler_def)

lemma bounds_keys: "map fst (bounds s) = map fst (tasks s)"
  by (simp add: bounds_def comp_def case_prod_beta)

text \<open>The invariants at every state a run reaches.\<close>

lemma reaches_invariants:
  assumes "load_and_run opts ts = Some (Inr s0)" and "reaches X s0 s"
  shows "sem_inv s" and "running_inv s" and "attempts_inv s" and "options s = opts"
    and "bounds s = bounds (loadPlan ts (new_scheduler opts))"
    and "0 \<le> maxConcurrency opts \<Longrightarrow> 0 \<le> permits s"
proof -
  let ?l = "loadPlan ts (new_scheduler opts)"
  let ?I = "\<lambda>s. sem_inv s \<and> running_inv s \<and> attempts_inv s \<and> options s = opts
                \<and> bounds s = bounds ?l \<and> (0 \<le> maxConcurrency opts \<longrightarrow> 0 \<le> permits s)"
  have "?I s"
  proof (rule reaches_invariant[OF assms(2), where I = ?I])
    show "?I s0" using sem_running_start[OF assms(1)] attempts_start[OF assms(1)] by simp
  next
    fix s pid s' assume I: "?I s" and st: "step X s pid = Some s'"
    from I st have "sem_inv s'" "running_inv s'" "attempts_inv s'"
      using sem_inv_step running_inv_step attempts_inv_step by blast+
    moreover from I st have "options s' = opts" "bounds s' = bounds ?l"
      using step_options bounds_step by metis+
    moreover from I st have "0 \<le> maxConcurrency opts \<longrightarrow> 0 \<le> permits s'"
      using permits_step by blast
    ultimately show "?I s'" by simp
  qed
  then show "sem_inv s" and "running_inv s" and "attempts_inv s" and "options s = opts"
    and "bounds s = bounds (loadPlan ts (new_scheduler opts))"
    and "0 \<le> maxConcurrency opts \<Longrightarrow> 0 \<le> permits s"
    by simp_all
qed

lemma stored_bound:
  assumes "load_and_run opts ts = Some (Inr s0)" and "reaches X s0 s"
    and "k \<in> t_id ` set ts"
  obtains t task where "map_of (tasks s) k = Some t" "task \<in> set ts" "t_id task = k"
    "max_attempts s t = declared_attempts opts task"
proof -
  let ?l = "loadPlan ts (new_scheduler opts)"
  note b = reaches_invariants(5)[OF assms(1,2)]
  from b have "map fst (tasks s) = map fst (tasks ?l)" using bounds_keys by metis
  then have "fst ` set (tasks s) = fst ` set (tasks ?l)" by (metis set_map)
  with assms(3) have "k \<in> fst ` set (tasks s)" by (simp add: loadPlan_keys)
  then obtain t where t: "map_of (tasks s) k = Some t"
    by (metis domD dom_map_of_conv_image_fst)
  with b have "map_option t_maxAttempts (map_of (tasks ?l) k) = Some (t_maxAttempts t)"
    using bounds_lookup[of s k] bounds_lookup[of ?l k] by simp
  then obtain tl where tl: "map_of (tasks ?l) k = Some tl" "t_maxAttempts tl = t_maxAttempts t"
    by auto
  from loadPlan_tasks(2)[OF tl(1)] tl(2) obtain task where
    task: "task \<in> set ts" "t_id task = k" "t_maxAttempts t = Some (declared_attempts opts task)"
    by (auto simp: normalised_def)
  then have "max_attempts s t = declared_attempts opts task" by (simp add: max_attempts_def)
  with t task(1,2) that show thesis by blast
qed

section \<open>Properties of every run of the scheduler\<close>

lemma after_steps_reaches:
  assumes "exec_schedule X s (replicate n 0) \<noteq> None"
  shows "reaches X s (after_steps X s n)"
proof -
  from assms obtain s' where s': "exec_schedule X s (replicate n 0) = Some s'" by auto
  then have "reaches X s s'" by (rule exec_schedule_reaches) (rule reaches_start)
  with s' show ?thesis by (simp add: after_steps_def)
qed


lemma cascade_reaches_5: "reaches always_throws cascade_start (after_steps always_throws cascade_start 5)"
  by (rule after_steps_reaches) code_simp

lemma fractional_loaded:
  "load_and_run (scheduler_options 3 3) [(plain_task ''t'' [])\<lparr>t_maxAttempts := Some (Dyadic 3 1)\<rparr>]
   = Some (Inr fractional_start)"
  by code_simp

lemma fractional_reaches_8:
  "reaches always_throws fractional_start (after_steps always_throws fractional_start 8)"
  by (rule after_steps_reaches) code_simp

text \<open>
  C2, amended. \<open>executeTask\<close> counts the attempt and calls the executor before it compares
  \<open>attempts\<close> with \<open>maxAttempts\<close>, and the comparison \<open>attempts < maxAttempts\<close> is one of
  JavaScript numbers. At every state that a run of a loaded plan reaches, under every executor
  and every interleaving, and for every task of the plan, with \<open>maxAttempts\<close> the number
  declared for the task or else the default: the executor has been called for the task at
  most \<open>attempts\<close> times; \<open>attempts\<close> is at most the limit of the code, which is the larger of 1
  and \<open>maxAttempts\<close> rounded up for a finite \<open>maxAttempts\<close>, 1 for \<open>NaN\<close> and \<open>-Infinity\<close>, and
  absent for \<open>Infinity\<close>; for an integer \<open>maxAttempts = n\<close> that is \<open>attempts \<le> max 1 n\<close>; and a
  FAILED task has \<open>attempts < maxAttempts\<close> false.
\<close>

theorem attempts_within_declared_bound:
  assumes "load_and_run opts ts = Some (Inr s0)" and "reaches X s0 s"
    and "k \<in> t_id ` set ts"
  shows "\<exists>task \<in> set ts. t_id task = k
           \<and> int (count_list (calls s) k) \<le> attempts_of s k
           \<and> allows (attempts_limit (declared_attempts opts task)) (attempts_of s k)
           \<and> (\<forall>n. declared_attempts opts task = whole n \<longrightarrow> attempts_of s k \<le> max 1 n)
           \<and> (status_of s k = Some FAILED
                \<longrightarrow> \<not> int_less (attempts_of s k) (declared_attempts opts task))"
proof -
  from stored_bound[OF assms] obtain t task where
    t: "map_of (tasks s) k = Some t" and task: "task \<in> set ts" "t_id task = k"
    and m: "max_attempts s t = declared_attempts opts task"
    by blast
  from attempts_invD(2)[OF reaches_invariants(3)[OF assms(1,2)] t] m
  have ok: "int (count_list (calls s) k) \<le> t_attempts t"
    "allows (attempts_limit (declared_attempts opts task)) (t_attempts t)"
    "t_status t = FAILED \<longrightarrow> \<not> int_less (t_attempts t) (declared_attempts opts task)"
    by (simp_all add: task_ok_def attempts_bound_def)
  from ok(2) have "\<forall>n. declared_attempts opts task = whole n \<longrightarrow> t_attempts t \<le> max 1 n"
    by (auto simp: whole_def round_up_whole)
  with ok t task show ?thesis by (auto simp: attempts_of_def status_of_def)
qed

theorem attempts_within_declared_bound_witness:
  "load_and_run (scheduler_options 3 3) [(plain_task ''t'' [])\<lparr>t_maxAttempts := Some (Dyadic 3 1)\<rparr>]
     = Some (Inr fractional_start)
   \<and> reaches always_throws fractional_start (after_steps always_throws fractional_start 8)
   \<and> count_list (calls (after_steps always_throws fractional_start 8)) ''t'' = 2
   \<and> attempts_of (after_steps always_throws fractional_start 8) ''t'' = 2
   \<and> status_of (after_steps always_throws fractional_start 8) ''t'' = Some FAILED
   \<and> attempts_limit (Dyadic 3 1) = Some 2
   \<and> (\<exists>task \<in> set [(plain_task ''t'' [])\<lparr>t_maxAttempts := Some (Dyadic 3 1)\<rparr>].
         t_id task = ''t''
       \<and> int (count_list (calls (after_steps always_throws fractional_start 8)) ''t'')
           \<le> attempts_of (after_steps always_throws fractional_start 8) ''t''
       \<and> allows (attempts_limit (declared_attempts (scheduler_options 3 3) task))
            (attempts_of (after_steps always_throws fractional_start 8) ''t'')
       \<and> (\<forall>n. declared_attempts (scheduler_options 3 3) task = whole n
              \<longrightarrow> attempts_of (after_steps always_throws fractional_start 8) ''t'' \<le> max 1 n)
       \<and> (status_of (after_steps always_throws fractional_start 8) ''t'' = Some FAILED
            \<longrightarrow> \<not> int_less (attempts_of (after_steps always_throws fractional_start 8) ''t'')
                    (declared_attempts (scheduler_options 3 3) task)))"
proof -
  have k: "''t'' \<in> t_id ` set [(plain_task ''t'' [])\<lparr>t_maxAttempts := Some (Dyadic 3 1)\<rparr>]"
    by (simp add: plain_task_def)
  have v: "count_list (calls (after_steps always_throws fractional_start 8)) ''t'' = 2
           \<and> attempts_of (after_steps always_throws fractional_start 8) ''t'' = 2
           \<and> status_of (after_steps always_throws fractional_start 8) ''t'' = Some FAILED"
    by code_simp
  have l: "attempts_limit (Dyadic 3 1) = Some 2" by (simp add: round_up_def)
  from attempts_within_declared_bound[OF fractional_loaded fractional_reaches_8 k]
    fractional_loaded fractional_reaches_8 v l
  show ?thesis by blast
qed

text \<open>
  C2 as stated fails for \<open>maxAttempts = 0\<close>: the task is attempted once, the executor is
  called once, and \<open>attempts\<close> is 1.
\<close>

theorem zero_max_attempts_still_runs_once:
  "load_and_run (scheduler_options 3 3) [(plain_task ''t'' [])\<lparr>t_maxAttempts := Some (whole 0)\<rparr>]
     = Some (Inr zero_attempts_start)
   \<and> (case exec_schedule always_returns zero_attempts_start [0, 0, 0] of
        None \<Rightarrow> False
      | Some s \<Rightarrow>
          map_option t_maxAttempts (map_of (tasks s) ''t'') = Some (Some (whole 0))
        \<and> attempts_of s ''t'' = 1
        \<and> calls s = [''t'']
        \<and> \<not> attempts_of s ''t'' \<le> 0
        \<and> \<not> int (count_list (calls s) ''t'') \<le> 0)"
  by code_simp




section \<open>The cycle check\<close>

subsection \<open>The number of tasks is enough fuel\<close>


lemma white_black: "coloured (c(u \<mapsto> BLACK)) WHITE = coloured c WHITE - {u}"
  by (auto simp: coloured_def)


subsection \<open>What the search leaves BLACK is free of cycles\<close>

lemma closed_reach:
  assumes "(v, x) \<in> (edges g)\<^sup>*" and "v \<in> B" and "\<forall>w \<in> B. set (children g w) \<subseteq> B"
  shows "x \<in> B"
  using assms by (induction rule: rtrancl_induct) (auto simp: edges_def)







subsection \<open>The graph that loadPlan records\<close>

lemma children_update:
  "children (AList.update k v g) u = (if u = k then v else children g u)"
  by (simp add: children_def update_conv')

lemma init_tasks_children:
  assumes "\<forall>u. children (dependents s) u = []"
  shows "children (dependents (init_tasks ts s)) u = []"
  using assms
proof (induction ts arbitrary: s)
  case Nil
  then show ?case by simp
next
  case (Cons task ts)
  let ?s1 = "s\<lparr>tasks := AList.update (t_id task)
                     (task\<lparr>t_status := PENDING, t_attempts := 0,
                            t_maxAttempts :=
                              (case t_maxAttempts task of
                                 None \<Rightarrow> Some (defaultMaxAttempts (options s))
                               | Some m \<Rightarrow> Some m)\<rparr>)
                     (tasks s),
          indegree := AList.update (t_id task) 0 (indegree s),
          dependents := AList.update (t_id task) [] (dependents s)\<rparr>"
  have "children (dependents (init_tasks ts ?s1)) u = []"
    by (rule Cons.IH) (simp add: children_update Cons.prems)
  then show ?case by simp
qed

lemma add_edges_children:
  "set (children (dependents (add_edges c ps s)) u)
   = set (children (dependents s) u) \<union> (if u \<in> set ps \<and> u \<in> fst ` set (tasks s) then {c} else {})"
proof (induction ps arbitrary: s)
  case Nil
  show ?case by simp
next
  case (Cons p ps)
  show ?case
  proof (cases "p \<in> fst ` set (tasks s)")
    case False
    then show ?thesis by (auto simp: Cons)
  next
    case True
    let ?s1 = "s\<lparr>dependents := AList.update p (children (dependents s) p @ [c]) (dependents s),
                  indegree := AList.update c (indegree_of s c + 1) (indegree s)\<rparr>"
    have t: "tasks ?s1 = tasks s" by simp
    have "set (children (dependents (add_edges c (p # ps) s)) u)
          = set (children (dependents (add_edges c ps ?s1)) u)"
      using True by simp
    also have "\<dots> = set (children (dependents ?s1) u)
                 \<union> (if u \<in> set ps \<and> u \<in> fst ` set (tasks s) then {c} else {})"
      unfolding Cons[of ?s1] t ..
    also have "set (children (dependents ?s1) u)
               = set (children (dependents s) u) \<union> (if u = p then {c} else {})"
      by (simp add: children_update)
    finally show ?thesis using True by auto
  qed
qed

lemma build_graph_children:
  "set (children (dependents (build_graph ts s)) u)
   = set (children (dependents s) u)
     \<union> {t_id task |task. task \<in> set ts \<and> u \<in> set (t_dependencies task) \<and> u \<in> fst ` set (tasks s)}"
proof (induction ts arbitrary: s)
  case Nil
  show ?case by simp
next
  case (Cons task ts)
  let ?s1 = "add_edges (t_id task) (t_dependencies task) s"
  have "set (children (dependents (build_graph (task # ts) s)) u)
        = set (children (dependents ?s1) u)
          \<union> {t_id task' |task'. task' \<in> set ts \<and> u \<in> set (t_dependencies task')
                \<and> u \<in> fst ` set (tasks ?s1)}"
    using Cons[of ?s1] by simp
  then show ?case by (auto simp: add_edges_children)
qed

lemma loadPlan_edges: "edges (dependents (loadPlan ts (new_scheduler opts))) = dependency_edges ts"
proof -
  let ?r = "reset (new_scheduler opts)"
  have e: "\<forall>u. children (dependents ?r) u = []"
    by (simp add: reset_def new_scheduler_def children_def)
  have k: "fst ` set (tasks (init_tasks ts ?r)) = t_id ` set ts"
    by (simp add: init_tasks_keys reset_def new_scheduler_def)
  have "set (children (dependents (loadPlan ts (new_scheduler opts))) u)
        = {t_id task |task. task \<in> set ts \<and> u \<in> set (t_dependencies task) \<and> u \<in> t_id ` set ts}"
    for u
    unfolding loadPlan_def build_graph_children init_tasks_children[OF e] k by simp
  then show ?thesis by (auto simp: edges_def dependency_edges_def)
qed



subsection \<open>The breadth-first search of skipDependentTasks\<close>

lemma reach_step:
  "(edges g)\<^sup>* `` {x} = insert x ((edges g)\<^sup>* `` set (children g x))"
proof (intro set_eqI iffI)
  fix d assume "d \<in> (edges g)\<^sup>* `` {x}"
  then have "(x, d) \<in> (edges g)\<^sup>*" by simp
  then show "d \<in> insert x ((edges g)\<^sup>* `` set (children g x))"
    by (cases rule: converse_rtranclE) (auto simp: edges_def)
next
  fix d assume "d \<in> insert x ((edges g)\<^sup>* `` set (children g x))"
  then consider "d = x" | c where "c \<in> set (children g x)" "(c, d) \<in> (edges g)\<^sup>*" by auto
  then show "d \<in> (edges g)\<^sup>* `` {x}"
  proof cases
    case 1
    then show ?thesis by simp
  next
    case 2
    from 2(1) have "(x, c) \<in> edges g" by (simp add: edges_def)
    with 2(2) show ?thesis by (auto intro: converse_rtrancl_into_rtrancl)
  qed
qed

lemma bfs_set:
  "\<forall>t \<in> set toSkip. set (children g t) \<subseteq> set toSkip \<union> set queue
   \<Longrightarrow> set (bfs g queue toSkip) = set toSkip \<union> (edges g)\<^sup>* `` set queue"
proof (induction g queue toSkip rule: bfs.induct)
  case (1 g toSkip)
  show ?case by simp
next
  case (2 g taskId queue toSkip)
  show ?case
  proof (cases "taskId \<in> set toSkip")
    case True
    from 2(3) True have inv: "\<forall>t \<in> set toSkip. set (children g t) \<subseteq> set toSkip \<union> set queue"
      by auto
    from 2(1)[OF True inv] have r: "set (bfs g queue toSkip) = set toSkip \<union> (edges g)\<^sup>* `` set queue" .
    let ?B = "set toSkip \<union> (edges g)\<^sup>* `` set queue"
    have closed: "\<forall>w \<in> ?B. set (children g w) \<subseteq> ?B"
    proof (intro ballI subsetI)
      fix w v assume w: "w \<in> ?B" and v: "v \<in> set (children g w)"
      from w show "v \<in> ?B"
      proof
        assume "w \<in> set toSkip"
        with inv v have "v \<in> set toSkip \<union> set queue" by auto
        then show ?thesis by auto
      next
        assume "w \<in> (edges g)\<^sup>* `` set queue"
        then obtain a where a: "a \<in> set queue" "(a, w) \<in> (edges g)\<^sup>*" by auto
        from v have "(w, v) \<in> edges g" by (simp add: edges_def)
        with a(2) have "(a, v) \<in> (edges g)\<^sup>*" by (rule rtrancl_into_rtrancl)
        with a(1) show ?thesis by auto
      qed
    qed
    have "(edges g)\<^sup>* `` {taskId} \<subseteq> ?B"
    proof
      fix d assume "d \<in> (edges g)\<^sup>* `` {taskId}"
      then have "(taskId, d) \<in> (edges g)\<^sup>*" by simp
      from closed_reach[OF this _ closed] True show "d \<in> ?B" by simp
    qed
    moreover have "(edges g)\<^sup>* `` set (taskId # queue)
                   = (edges g)\<^sup>* `` {taskId} \<union> (edges g)\<^sup>* `` set queue"
      by auto
    ultimately have "set toSkip \<union> (edges g)\<^sup>* `` set (taskId # queue) = ?B" by blast
    with r True show ?thesis by simp
  next
    case False
    have inv: "\<forall>t \<in> set (toSkip @ [taskId]).
                 set (children g t) \<subseteq> set (toSkip @ [taskId]) \<union> set (queue @ children g taskId)"
      using 2(3) by auto
    from 2(2)[OF False inv]
    have r: "set (bfs g (queue @ children g taskId) (toSkip @ [taskId]))
             = set (toSkip @ [taskId]) \<union> (edges g)\<^sup>* `` set (queue @ children g taskId)" .
    have "(edges g)\<^sup>* `` set (taskId # queue)
          = (edges g)\<^sup>* `` {taskId} \<union> (edges g)\<^sup>* `` set queue"
      by auto
    also have "\<dots> = insert taskId ((edges g)\<^sup>* `` set (children g taskId))
                     \<union> (edges g)\<^sup>* `` set queue"
      by (simp only: reach_step)
    finally have "set toSkip \<union> (edges g)\<^sup>* `` set (taskId # queue)
                  = set (toSkip @ [taskId]) \<union> (edges g)\<^sup>* `` set (queue @ children g taskId)"
      by auto
    with r False show ?thesis by simp
  qed
qed

lemma descendants: "(edges g)\<^sup>* `` set (children g f) = {d. (f, d) \<in> (edges g)\<^sup>+}"
proof (intro set_eqI iffI)
  fix d assume "d \<in> (edges g)\<^sup>* `` set (children g f)"
  then obtain c where "c \<in> set (children g f)" "(c, d) \<in> (edges g)\<^sup>*" by auto
  then have "(f, c) \<in> edges g" "(c, d) \<in> (edges g)\<^sup>*" by (simp_all add: edges_def)
  then show "d \<in> {d. (f, d) \<in> (edges g)\<^sup>+}" by (auto intro: rtrancl_into_trancl2)
next
  fix d assume "d \<in> {d. (f, d) \<in> (edges g)\<^sup>+}"
  then obtain c where "(f, c) \<in> edges g" "(c, d) \<in> (edges g)\<^sup>*" by (auto dest: tranclD)
  then show "d \<in> (edges g)\<^sup>* `` set (children g f)" by (auto simp: edges_def)
qed

lemma bfs_descendants: "set (bfs g (children g f) []) = {d. (f, d) \<in> (edges g)\<^sup>+}"
  using bfs_set[of "[]" g "children g f"] by (simp add: descendants)

subsection \<open>The loop over toSkip\<close>

lemma fold_skip_one_lookup:
  "map_of (tasks (fold (skip_one f) ks s)) d
   = (if d \<in> set ks
      then map_option (\<lambda>t. t\<lparr>t_status := SKIPPED, t_error := Some (skip_message f)\<rparr>)
             (map_of (tasks s) d)
      else map_of (tasks s) d)"
proof (induction ks arbitrary: s)
  case Nil
  show ?case by simp
next
  case (Cons k ks)
  show ?case by (cases "map_of (tasks s) d") (auto simp: Cons)
qed

lemma fold_skip_one_failed:
  "set (failedTasks (fold (skip_one f) ks s)) = set (failedTasks s) \<union> set ks"
proof (induction ks arbitrary: s)
  case Nil
  show ?case by simp
next
  case (Cons k ks)
  have "set (failedTasks (skip_one f k s)) = insert k (set (failedTasks s))"
    by (auto simp: skip_one_def set_add_def)
  then show ?case by (simp add: Cons)
qed

lemma skipDependentTasks_lookup:
  "map_of (tasks (skipDependentTasks f s)) d
   = (if (f, d) \<in> (edges (dependents s))\<^sup>+
      then map_option (\<lambda>t. t\<lparr>t_status := SKIPPED, t_error := Some (skip_message f)\<rparr>)
             (map_of (tasks s) d)
      else map_of (tasks s) d)"
  by (simp add: skipDependentTasks_def fold_skip_one_lookup bfs_descendants)

lemma skipDependentTasks_failed:
  "set (failedTasks (skipDependentTasks f s))
   = set (failedTasks s) \<union> {d. (f, d) \<in> (edges (dependents s))\<^sup>+}"
  by (simp add: skipDependentTasks_def fold_skip_one_failed bfs_descendants)

subsection \<open>The graph and the tasks stay as loadPlan left them\<close>

lemma step_dependents:
  assumes "step X s pid = Some s'"
  shows "dependents s' = dependents s"
  using assms by (cases rule: step_cases) auto

lemma reaches_graph:
  assumes "load_and_run opts ts = Some (Inr s0)" and "reaches X s0 s"
  shows "edges (dependents s) = dependency_edges ts"
    and "fst ` set (tasks s) = t_id ` set ts"
proof -
  let ?l = "loadPlan ts (new_scheduler opts)"
  have "dependents s = dependents ?l"
  proof (rule reaches_invariant[OF assms(2), where I = "\<lambda>s. dependents s = dependents ?l"])
    show "dependents s0 = dependents ?l" using load_and_run_Inr[OF assms(1)] by simp
  next
    fix s pid s' assume "dependents s = dependents ?l" "step X s pid = Some s'"
    then show "dependents s' = dependents ?l" using step_dependents by metis
  qed
  then show "edges (dependents s) = dependency_edges ts" by (simp add: loadPlan_edges)
  from reaches_invariants(5)[OF assms] have "map fst (tasks s) = map fst (tasks ?l)"
    using bounds_keys by metis
  then have "fst ` set (tasks s) = fst ` set (tasks ?l)" by (metis set_map)
  then show "fst ` set (tasks s) = t_id ` set ts" by (simp add: loadPlan_keys)
qed

lemma dependent_is_task:
  assumes "(f, d) \<in> (dependency_edges ts)\<^sup>+"
  shows "d \<in> t_id ` set ts"
proof -
  from assms obtain c where "(c, d) \<in> dependency_edges ts" by (blast dest: tranclE)
  then show ?thesis by (auto simp: dependency_edges_def)
qed

subsection \<open>Which step makes a task FAILED\<close>

lemma fold_scheduleTask_lookup:
  "map_of (tasks (fold scheduleTask ids s)) k
   = (if k \<in> set ids then map_option (\<lambda>t. t\<lparr>t_status := QUEUED\<rparr>) (map_of (tasks s) k)
      else map_of (tasks s) k)"
proof (induction ids arbitrary: s)
  case Nil
  show ?case by simp
next
  case (Cons i ids)
  show ?case by (cases "map_of (tasks s) k") (auto simp: Cons)
qed

lemma status_of_upd_task:
  "status_of (upd_task tid f s) k
   = (if k = tid then map_option (\<lambda>t. t_status (f t)) (map_of (tasks s) k) else status_of s k)"
  by (simp add: status_of_def option.map_comp comp_def)

lemma status_of_cong: "tasks s' = tasks s \<Longrightarrow> status_of s' k = status_of s k"
  by (simp add: status_of_def)

lemma onTaskCompleted_not_FAILED:
  assumes "status_of (onTaskCompleted tid s) k = Some FAILED"
  shows "status_of s k = Some FAILED"
proof -
  obtain s1 nr where r: "release_children (children (dependents s) tid) s [] = (s1, nr)"
    and o: "onTaskCompleted tid s = fold scheduleTask nr s1"
    by (rule onTaskCompleted_unfold)
  from release_children_fields[OF r] have t: "tasks s1 = tasks s" by simp
  from assms show ?thesis
    unfolding o status_of_def fold_scheduleTask_lookup t
    by (cases "map_of (tasks s) k") (auto split: if_splits)
qed

lemma skipDependentTasks_not_FAILED:
  assumes "status_of (skipDependentTasks f s) k = Some FAILED"
  shows "status_of s k = Some FAILED"
  using assms unfolding status_of_def skipDependentTasks_lookup
  by (cases "map_of (tasks s) k") (auto split: if_splits)

lemma becomes_FAILED:
  assumes "step X s pid = Some s'"
    and "status_of s' k = Some FAILED" and "status_of s k \<noteq> Some FAILED"
  shows "k = p_task (procs s ! pid) \<and> p_pc (procs s ! pid) = Executing
         \<and> p_task (procs s' ! pid) = k \<and> p_pc (procs s' ! pid) = Failing"
  using assms(1)
proof (cases rule: step_cases)
  case (Acquired t)
  let ?f = "\<lambda>t. t\<lparr>t_status := RUNNING, t_attempts := t_attempts t + 1\<rparr>"
  have "status_of s' k = status_of (upd_task (p_task (procs s ! pid)) ?f s) k"
    by (rule status_of_cong) (simp add: Acquired(4))
  with assms(2,3) show ?thesis
    by (cases "map_of (tasks s) k") (auto simp: status_of_upd_task split: if_splits)
next
  case (Started t)
  have "status_of s' k = status_of s k" by (rule status_of_cong) (simp add: Started(4))
  with assms(2,3) show ?thesis by simp
next
  case (Resolved t res)
  let ?f = "\<lambda>t. t\<lparr>t_status := COMPLETED, t_result := Some res\<rparr>"
  have "status_of s' k = status_of (upd_task (p_task (procs s ! pid)) ?f s) k"
    by (rule status_of_cong) (simp add: Resolved(5))
  with assms(2,3) show ?thesis
    by (cases "map_of (tasks s) k") (auto simp: status_of_upd_task split: if_splits)
next
  case (Retry t errorMessage)
  have "status_of s' k = status_of s k" by (rule status_of_cong) (simp add: Retry(6))
  with assms(2,3) show ?thesis by simp
next
  case (Exhausted t errorMessage)
  let ?f = "\<lambda>t. t\<lparr>t_status := FAILED, t_error := Some errorMessage\<rparr>"
  have "status_of s' k = status_of (upd_task (p_task (procs s ! pid)) ?f s) k"
    by (rule status_of_cong) (simp add: Exhausted(6))
  with assms(2,3) have "k = p_task (procs s ! pid)"
    by (auto simp: status_of_upd_task split: if_splits)
  with Exhausted(1,3,6) show ?thesis by simp
next
  case (Completing t)
  have "status_of s' k = status_of (onTaskCompleted (p_task (procs s ! pid)) s) k"
    by (rule status_of_cong) (simp add: Completing(4))
  with assms(2,3) onTaskCompleted_not_FAILED show ?thesis by metis
next
  case (Retrying t)
  have "status_of s' k = status_of s k" by (rule status_of_cong) (simp add: Retrying(4))
  with assms(2,3) show ?thesis by simp
next
  case (Delaying t)
  let ?f = "\<lambda>t. t\<lparr>t_status := QUEUED\<rparr>"
  have "status_of s' k = status_of (upd_task (p_task (procs s ! pid)) ?f s) k"
    by (rule status_of_cong) (simp add: Delaying(4))
  with assms(2,3) show ?thesis
    by (cases "map_of (tasks s) k") (auto simp: status_of_upd_task split: if_splits)
next
  case (Failing t)
  have "status_of s' k = status_of (skipDependentTasks (p_task (procs s ! pid)) s) k"
    by (rule status_of_cong) (simp add: Failing(4))
  with assms(2,3) skipDependentTasks_not_FAILED show ?thesis by metis
next
  case (Releasing t)
  have "status_of s' k = status_of s k" by (rule status_of_cong) (simp add: Releasing(4))
  with assms(2,3) show ?thesis by simp
qed

text \<open>The step of a process that stands before \<open>skipDependentTasks\<close>.\<close>

lemma failing_step:
  assumes "load_and_run opts ts = Some (Inr s0)" and "reaches X s0 s"
    and "step X s pid = Some s'" and "p_pc (procs s ! pid) = Failing"
  shows "(p_task (procs s ! pid), d) \<in> (dependency_edges ts)\<^sup>+
           \<Longrightarrow> \<exists>t. map_of (tasks s) d = Some t
                 \<and> map_of (tasks s') d
                     = Some (t\<lparr>t_status := SKIPPED,
                              t_error := Some (skip_message (p_task (procs s ! pid)))\<rparr>)
                 \<and> d \<in> set (failedTasks s')"
    and "(p_task (procs s ! pid), d) \<notin> (dependency_edges ts)\<^sup>+
           \<Longrightarrow> map_of (tasks s') d = map_of (tasks s) d
               \<and> (d \<in> set (failedTasks s') \<longleftrightarrow> d \<in> set (failedTasks s))"
proof -
  let ?f = "p_task (procs s ! pid)"
  from assms(3,4) have s': "tasks s' = tasks (skipDependentTasks ?f s)"
    "failedTasks s' = failedTasks (skipDependentTasks ?f s)"
    by (cases rule: step_cases; simp)+
  note g = reaches_graph[OF assms(1,2)]
  {
    assume d: "(?f, d) \<in> (dependency_edges ts)\<^sup>+"
    from dependent_is_task[OF d] g(2) have "d \<in> fst ` set (tasks s)" by simp
    then obtain t where t: "map_of (tasks s) d = Some t"
      by (metis domD dom_map_of_conv_image_fst)
    with d show "\<exists>t. map_of (tasks s) d = Some t
                 \<and> map_of (tasks s') d
                     = Some (t\<lparr>t_status := SKIPPED, t_error := Some (skip_message ?f)\<rparr>)
                 \<and> d \<in> set (failedTasks s')"
      unfolding s' by (simp add: skipDependentTasks_lookup skipDependentTasks_failed g(1))
  }
  {
    assume d: "(?f, d) \<notin> (dependency_edges ts)\<^sup>+"
    then show "map_of (tasks s') d = map_of (tasks s) d
               \<and> (d \<in> set (failedTasks s') \<longleftrightarrow> d \<in> set (failedTasks s))"
      unfolding s' by (simp add: skipDependentTasks_lookup skipDependentTasks_failed g(1))
  }
qed

section \<open>The cascade of skips over a whole run\<close>

subsection \<open>The program counter of a task\<close>

lemma pc_of_None: "pc_of s k = None \<longleftrightarrow> k \<notin> p_task ` set (procs s)"
  by (auto simp: pc_of_def map_of_eq_None_iff image_image)

lemma pc_of_cong: "procs s' = procs s \<Longrightarrow> pc_of s' = pc_of s"
  by (rule ext) (simp add: pc_of_def)

lemma map_of_list_update:
  assumes "distinct (map fst al)" and "i < length al" and "fst (al ! i) = k"
  shows "map_of (al[i := (k, v)]) = (map_of al)(k \<mapsto> v)"
  using assms
proof (induction al arbitrary: i)
  case Nil
  then show ?case by simp
next
  case (Cons e al)
  show ?case
  proof (cases i)
    case 0
    with Cons.prems show ?thesis by (cases e) auto
  next
    case (Suc j)
    with Cons.prems have j: "j < length al" "fst (al ! j) = k" "distinct (map fst al)" by simp_all
    from Cons.prems(1) j(1,2) have "fst e \<noteq> k" by (cases e) (auto simp: image_iff dest: nth_mem)
    with Cons.IH[OF j(3) j(1,2)] Suc show ?thesis by (cases e) auto
  qed
qed

lemma pc_of_nth:
  assumes "distinct (map p_task (procs s))" and "pid < length (procs s)"
  shows "pc_of s (p_task (procs s ! pid)) = Some (p_pc (procs s ! pid))"
proof -
  let ?al = "map (\<lambda>q. (p_task q, p_pc q)) (procs s)"
  from assms(1) have "distinct (map fst ?al)" by (simp add: comp_def)
  moreover from assms(2) have "(p_task (procs s ! pid), p_pc (procs s ! pid)) \<in> set ?al"
    by (auto simp: image_iff intro: nth_mem)
  ultimately show ?thesis unfolding pc_of_def by (rule map_of_is_SomeI)
qed

lemma pc_of_set_proc:
  assumes "distinct (map p_task (procs s))" and "pid < length (procs s)"
    and "p_task (g (procs s ! pid)) = p_task (procs s ! pid)"
  shows "pc_of (set_proc pid g s) = (pc_of s)(p_task (procs s ! pid) \<mapsto> p_pc (g (procs s ! pid)))"
proof -
  let ?al = "map (\<lambda>q. (p_task q, p_pc q)) (procs s)"
  let ?k = "p_task (procs s ! pid)"
  have d: "distinct (map fst ?al)" using assms(1) by (simp add: comp_def)
  have l: "pid < length ?al" using assms(2) by simp
  have f: "fst (?al ! pid) = ?k" using assms(2) by simp
  have "map (\<lambda>q. (p_task q, p_pc q)) ((procs s)[pid := g (procs s ! pid)])
        = ?al[pid := (?k, p_pc (g (procs s ! pid)))]"
    using assms(3) by (simp add: map_update)
  then show ?thesis
    unfolding pc_of_def fun_eq_iff using map_of_list_update[OF d l f] by simp
qed

lemma distinct_set_proc:
  assumes "distinct (map p_task (procs s))" and "pid < length (procs s)"
    and "p_task (g (procs s ! pid)) = p_task (procs s ! pid)"
  shows "distinct (map p_task (procs (set_proc pid g s)))"
proof -
  have "map p_task (procs (set_proc pid g s)) = map p_task (procs s)"
    using assms(2,3) by (simp add: map_update list_update_same_conv)
  with assms(1) show ?thesis by simp
qed

lemma pc_of_scheduleTask:
  assumes "pc_of s tid = None"
  shows "pc_of (scheduleTask tid s)
         = (pc_of s)(tid \<mapsto> (if permits s > 0 then Acquired else Waiting))"
proof
  fix k
  from assms have "map_of (map (\<lambda>q. (p_task q, p_pc q)) (procs s)) tid = None"
    by (simp add: pc_of_def)
  then show "pc_of (scheduleTask tid s) k
        = ((pc_of s)(tid \<mapsto> (if permits s > 0 then Acquired else Waiting))) k"
    by (auto simp: pc_of_def map_add_def split: option.splits)
qed

lemma pc_of_upd_task [simp]: "pc_of (upd_task tid f s) = pc_of s"
  by (rule pc_of_cong) simp

subsection \<open>The status and the error of a task\<close>

lemma status_of_upd:
  assumes "map_of (tasks s) tid = Some t"
  shows "status_of (upd_task tid f s) = (status_of s)(tid \<mapsto> t_status (f t))"
  by (rule ext) (simp add: status_of_upd_task assms)

lemma error_of_upd:
  "error_of (upd_task tid f s) k
   = (if k = tid then (case map_of (tasks s) k of None \<Rightarrow> None | Some t \<Rightarrow> t_error (f t))
      else error_of s k)"
  by (auto simp: error_of_def split: option.splits)

lemma error_of_cong: "tasks s' = tasks s \<Longrightarrow> error_of s' k = error_of s k"
  by (simp add: error_of_def)

lemma status_of_cong_fun: "tasks s' = tasks s \<Longrightarrow> status_of s' = status_of s"
  by (rule ext) (simp add: status_of_def)

lemma indegree_of_cong: "indegree s' = indegree s \<Longrightarrow> indegree_of s' c = indegree_of s c"
  by (simp add: indegree_of_def)

lemma consistentD:
  assumes "consistent s"
  shows "status_of s k = Some st \<Longrightarrow> compat (pc_of s k) st"
    and "pc_of s k = Some c \<Longrightarrow> \<exists>st. status_of s k = Some st \<and> compat (Some c) st"
proof -
  from assms have c: "(status_of s k = None \<longrightarrow> pc_of s k = None)
          \<and> (\<forall>st. status_of s k = Some st \<longrightarrow> compat (pc_of s k) st)"
    by (simp add: consistent_def)
  then show "status_of s k = Some st \<Longrightarrow> compat (pc_of s k) st" by simp
  from c show "pc_of s k = Some c \<Longrightarrow> \<exists>st. status_of s k = Some st \<and> compat (Some c) st"
    by (cases "status_of s k") auto
qed

subsection \<open>A move of one task keeps the invariants\<close>

text \<open>One task changes its program counter, its status and its error; the graph and the
  indegrees stay, the failed set does not shrink, and whether the task is released stays.\<close>

lemma released_move:
  assumes "pc_of s' = (pc_of s)(k := co')" and "status_of s' = (status_of s)(k \<mapsto> st')"
    and "released s' k = released s k"
  shows "released s' = released s"
proof
  fix p show "released s' p = released s p"
    using assms by (cases "p = k") (simp_all add: released_def)
qed

lemma pending_edges_cong:
  assumes "released s' = released s" and "dependents s' = dependents s"
  shows "pending_edges s' = pending_edges s"
  by (rule ext) (simp add: pending_edges_def assms)

lemma skip_inv_move:
  assumes inv: "skip_inv s"
    and d: "distinct (map p_task (procs s'))"
    and pc: "pc_of s' = (pc_of s)(k := co')"
    and st: "status_of s' = (status_of s)(k \<mapsto> st')"
    and stored: "status_of s k = Some st"
    and co: "compat co' st'"
    and rel: "released s' k = released s k"
    and deps: "dependents s' = dependents s"
    and ind: "indegree s' = indegree s"
    and failed: "set (failedTasks s) \<subseteq> set (failedTasks s')"
    and err: "\<And>d. d \<noteq> k \<Longrightarrow> error_of s' d = error_of s d"
    and keep: "st = FAILED \<Longrightarrow> st' = FAILED"
    and fresh: "pc_of s k = None \<Longrightarrow> co' \<noteq> None
                  \<Longrightarrow> \<forall>p. (p, k) \<in> edges (dependents s) \<longrightarrow> released s p"
    and skipped: "st' = SKIPPED \<Longrightarrow> k \<in> set (failedTasks s')
                  \<and> (\<exists>g. (g, k) \<in> (edges (dependents s))\<^sup>+ \<and> status_of s g = Some FAILED
                          \<and> g \<noteq> k \<and> error_of s' k = Some (skip_message g))"
  shows "skip_inv s'"
proof -
  from inv have c0: "consistent s" and a0: "accounted s" and p0: "parents_released s"
    and s0: "skipped_named s"
    by (simp_all add: skip_inv_def)
  have r: "released s' = released s" by (rule released_move[OF pc st rel])
  have "consistent s'"
    unfolding consistent_def
  proof
    fix x show "(status_of s' x = None \<longrightarrow> pc_of s' x = None)
          \<and> (\<forall>st. status_of s' x = Some st \<longrightarrow> compat (pc_of s' x) st)"
    proof (cases "x = k")
      case True
      with pc st co show ?thesis by simp
    next
      case False
      with pc st c0 show ?thesis by (simp add: consistent_def)
    qed
  qed
  moreover have "accounted s'"
    using a0 pending_edges_cong[OF r deps] indegree_of_cong[OF ind] deps
    by (simp add: accounted_def)
  moreover have "parents_released s'"
    unfolding parents_released_def
  proof (intro allI impI)
    fix c p assume a: "pc_of s' c \<noteq> None \<and> (p, c) \<in> edges (dependents s')"
    show "released s' p"
    proof (cases "pc_of s c = None")
      case False
      with a p0 deps have "released s p" unfolding parents_released_def by metis
      with r show ?thesis by simp
    next
      case True
      with a pc have "c = k" "co' \<noteq> None" by (auto split: if_splits)
      with True fresh a deps have "released s p" by metis
      with r show ?thesis by simp
    qed
  qed
  moreover have "skipped_named s'"
    unfolding skipped_named_def
  proof (intro allI impI)
    fix x assume sk: "status_of s' x = Some SKIPPED"
    show "x \<in> set (failedTasks s')
        \<and> (\<exists>g. (g, x) \<in> (edges (dependents s'))\<^sup>+ \<and> status_of s' g = Some FAILED
                \<and> error_of s' x = Some (skip_message g))"
    proof (cases "x = k")
      case True
      with sk st have "st' = SKIPPED" by simp
      from skipped[OF this] obtain g where g: "k \<in> set (failedTasks s')"
        "(g, k) \<in> (edges (dependents s))\<^sup>+" "status_of s g = Some FAILED" "g \<noteq> k"
        "error_of s' k = Some (skip_message g)" by blast
      from g(3,4) st have "status_of s' g = Some FAILED" by simp
      with g True deps show ?thesis by auto
    next
      case False
      with sk st have "status_of s x = Some SKIPPED" by simp
      with s0 obtain g where g: "x \<in> set (failedTasks s)"
        "(g, x) \<in> (edges (dependents s))\<^sup>+" "status_of s g = Some FAILED"
        "error_of s x = Some (skip_message g)"
        unfolding skipped_named_def by blast
      have "status_of s' g = Some FAILED"
      proof (cases "g = k")
        case True
        with g(3) stored have "st = FAILED" by simp
        from keep[OF this] True st show ?thesis by simp
      next
        case False
        with g(3) st show ?thesis by simp
      qed
      with g failed err[OF False] deps show ?thesis by auto
    qed
  qed
  ultimately show ?thesis using d by (simp add: skip_inv_def)
qed

subsection \<open>The accounting of the indegrees\<close>

lemma compat_PENDING [simp]: "compat co PENDING \<longleftrightarrow> co = None"
  by (cases "(co, PENDING)" rule: compat.cases) auto

lemma compat_SKIPPED [simp]: "compat co SKIPPED \<longleftrightarrow> co = None"
  by (cases "(co, SKIPPED)" rule: compat.cases) auto

lemma compat_FAILED: "compat co FAILED \<Longrightarrow> co \<noteq> None"
  by (cases co) auto

lemma compat_None: "compat None st \<Longrightarrow> st \<noteq> FAILED \<and> st \<noteq> COMPLETED"
  by auto

lemma member_le_sum_list_int:
  fixes xs :: "int list"
  assumes "\<forall>x \<in> set xs. 0 \<le> x" and "x \<in> set xs"
  shows "x \<le> sum_list xs"
  using assms
proof (induction xs)
  case Nil
  then show ?case by simp
next
  case (Cons y ys)
  have nn: "0 \<le> sum_list ys" using Cons.prems(1) by (intro sum_list_nonneg) simp
  show ?case
  proof (cases "x = y")
    case True
    with nn show ?thesis by simp
  next
    case False
    with Cons.prems have "x \<in> set ys" "\<forall>x \<in> set ys. 0 \<le> x" "0 \<le> y" by simp_all
    with Cons.IH show ?thesis by simp
  qed
qed

lemma children_entry:
  assumes "c \<in> set (children g p)"
  shows "\<exists>cs. (p, cs) \<in> set g \<and> children g p = cs"
proof (cases "map_of g p")
  case None
  with assms show ?thesis by (simp add: children_def)
next
  case (Some cs)
  then have "(p, cs) \<in> set g" by (rule map_of_SomeD)
  with Some show ?thesis by (simp add: children_def)
qed

lemma zero_indegree_parents:
  assumes "accounted s" and "indegree_of s c \<le> 0" and "(p, c) \<in> edges (dependents s)"
  shows "released s p"
proof (rule ccontr)
  assume n: "\<not> released s p"
  let ?f = "\<lambda>(p, cs). if released s p then 0 else int (count_list cs c)"
  from assms(3) have c: "c \<in> set (children (dependents s) p)" by (simp add: edges_def)
  from children_entry[OF c] obtain cs where e: "(p, cs) \<in> set (dependents s)"
    and cs: "children (dependents s) p = cs" by blast
  from c cs have "count_list cs c \<noteq> 0" by (simp add: count_list_0_iff)
  then have "0 < count_list cs c" by simp
  with n have "1 \<le> ?f (p, cs)" by simp
  moreover have "?f (p, cs) \<le> sum_list (map ?f (dependents s))"
  proof (rule member_le_sum_list_int)
    show "\<forall>x \<in> set (map ?f (dependents s)). 0 \<le> x" by auto
    from e have "?f (p, cs) \<in> ?f ` set (dependents s)" by (rule imageI)
    then show "?f (p, cs) \<in> set (map ?f (dependents s))" by (simp only: set_map)
  qed
  ultimately have "1 \<le> pending_edges s c" by (simp add: pending_edges_def)
  with assms(1,2) show False by (simp add: accounted_def)
qed

lemma sum_list_change_one:
  fixes f f' :: "'a \<times> 'b \<Rightarrow> int"
  assumes "distinct (map fst al)" and "(k, v) \<in> set al"
    and "\<And>e. e \<in> set al \<Longrightarrow> fst e \<noteq> k \<Longrightarrow> f' e = f e"
  shows "sum_list (map f' al) = sum_list (map f al) - f (k, v) + f' (k, v)"
  using assms
proof (induction al)
  case Nil
  then show ?case by simp
next
  case (Cons e al)
  show ?case
  proof (cases "e = (k, v)")
    case True
    with Cons.prems(1) have "\<forall>x \<in> set al. fst x \<noteq> k" by (auto simp: image_iff)
    with Cons.prems(3) have "map f' al = map f al" by auto
    then have "sum_list (map f' al) = sum_list (map f al)" by (rule arg_cong)
    with True show ?thesis by simp
  next
    case False
    with Cons.prems(2) have in_al: "(k, v) \<in> set al" by simp
    with Cons.prems(1) have "fst e \<noteq> k" by (auto simp: image_iff)
    with Cons.prems(3) have "f' e = f e" by simp
    moreover from Cons.IH[OF _ in_al] Cons.prems(1,3)
    have "sum_list (map f' al) = sum_list (map f al) - f (k, v) + f' (k, v)" by simp
    ultimately show ?thesis by simp
  qed
qed

lemma sum_list_same:
  assumes "\<And>e. e \<in> set al \<Longrightarrow> f' e = f e"
  shows "sum_list (map f' al) = sum_list (map f al)"
proof -
  from assms have "map f' al = map f al" by auto
  then show ?thesis by (rule arg_cong)
qed

text \<open>The step of \<open>onTaskCompleted\<close> for the bookkeeping: the task becomes released and the
  indegrees of its children go down.\<close>

lemma pending_edges_release:
  assumes d: "distinct (map fst (dependents s))"
    and n: "\<not> released s k"
    and r: "\<And>p. released s' p \<longleftrightarrow> p = k \<or> released s p"
    and deps: "dependents s' = dependents s"
  shows "pending_edges s' c = pending_edges s c - int (count_list (children (dependents s) k) c)"
proof -
  let ?f = "\<lambda>(p, cs). if released s p then 0 else int (count_list cs c)"
  let ?f' = "\<lambda>(p, cs). if released s' p then 0 else int (count_list cs c)"
  have other: "?f' e = ?f e" if "fst e \<noteq> k" for e using that r by (cases e) simp
  show ?thesis
  proof (cases "map_of (dependents s) k")
    case None
    then have "\<forall>e \<in> set (dependents s). fst e \<noteq> k"
      by (auto simp: map_of_eq_None_iff image_iff)
    with other have "sum_list (map ?f' (dependents s)) = sum_list (map ?f (dependents s))"
      by (intro sum_list_same) auto
    with None deps show ?thesis by (simp add: pending_edges_def children_def)
  next
    case (Some cs)
    then have e: "(k, cs) \<in> set (dependents s)" by (rule map_of_SomeD)
    from sum_list_change_one[OF d e, of ?f' ?f] other
    have "sum_list (map ?f' (dependents s))
          = sum_list (map ?f (dependents s)) - ?f (k, cs) + ?f' (k, cs)" by blast
    with n r[of k] Some deps show ?thesis by (simp add: pending_edges_def children_def)
  qed
qed

lemma skip_inv_complete:
  assumes inv: "skip_inv s"
    and d: "distinct (map p_task (procs s'))"
    and at: "pc_of s k = Some Completing"
    and pc: "pc_of s' = (pc_of s)(k \<mapsto> Releasing)"
    and st: "status_of s' = status_of s"
    and deps: "dependents s' = dependents s"
    and ind: "\<And>c. indegree_of s' c = indegree_of s c - int (count_list (children (dependents s) k) c)"
    and failed: "failedTasks s' = failedTasks s"
    and err: "\<And>d. error_of s' d = error_of s d"
  shows "skip_inv s'"
proof -
  from inv have c0: "consistent s" and a0: "accounted s" and p0: "parents_released s"
    and s0: "skipped_named s"
    by (simp_all add: skip_inv_def)
  from consistentD(2)[OF c0 at] have k: "status_of s k = Some COMPLETED" by auto
  have r: "released s' p \<longleftrightarrow> p = k \<or> released s p" for p
    using pc st k at by (auto simp: released_def)
  have n: "\<not> released s k" using at by (simp add: released_def)
  have "consistent s'"
    unfolding consistent_def
  proof
    fix x show "(status_of s' x = None \<longrightarrow> pc_of s' x = None)
          \<and> (\<forall>st. status_of s' x = Some st \<longrightarrow> compat (pc_of s' x) st)"
    proof (cases "x = k")
      case True
      with pc st k show ?thesis by simp
    next
      case False
      with pc st c0 show ?thesis by (simp add: consistent_def)
    qed
  qed
  moreover have "accounted s'"
  proof -
    from a0 have dd: "distinct (map fst (dependents s))"
      and i: "\<And>c. indegree_of s c = pending_edges s c"
      by (simp_all add: accounted_def)
    from pending_edges_release[OF dd n r deps] ind i deps dd show ?thesis
      by (simp add: accounted_def)
  qed
  moreover have "parents_released s'"
    unfolding parents_released_def
  proof (intro allI impI)
    fix c p assume a: "pc_of s' c \<noteq> None \<and> (p, c) \<in> edges (dependents s')"
    with pc at have "pc_of s c \<noteq> None" by (auto split: if_splits)
    with a p0 deps have "released s p" unfolding parents_released_def by metis
    with r show "released s' p" by simp
  qed
  moreover have "skipped_named s'"
    using s0 st deps failed err by (simp add: skipped_named_def)
  ultimately show ?thesis using d by (simp add: skip_inv_def)
qed

text \<open>\<open>scheduleTask\<close> for a PENDING task whose indegree has reached zero.\<close>

lemma error_of_scheduleTask [simp]: "error_of (scheduleTask tid s) d = error_of s d"
  by (auto simp: error_of_def split: option.splits)

lemma skip_inv_scheduleTask:
  assumes inv: "skip_inv s" and p: "status_of s tid = Some PENDING"
    and z: "indegree_of s tid \<le> 0"
  shows "skip_inv (scheduleTask tid s)"
proof -
  from inv have c0: "consistent s" and a0: "accounted s" and d0: "distinct (map p_task (procs s))"
    by (simp_all add: skip_inv_def)
  from consistentD(1)[OF c0 p] have none: "pc_of s tid = None" by (cases "pc_of s tid") auto
  from p obtain t where t: "map_of (tasks s) tid = Some t" by (auto simp: status_of_def)
  let ?c = "if permits s > 0 then Acquired else Waiting"
  show ?thesis
  proof (rule skip_inv_move[OF inv, where k = tid and co' = "Some ?c" and st' = QUEUED
        and st = PENDING])
    from none have "tid \<notin> p_task ` set (procs s)" by (simp add: pc_of_None)
    with d0 show "distinct (map p_task (procs (scheduleTask tid s)))" by simp
  next
    show "pc_of (scheduleTask tid s) = (pc_of s)(tid := Some ?c)"
      by (rule pc_of_scheduleTask[OF none])
  next
    have "status_of (scheduleTask tid s) = status_of (upd_task tid (\<lambda>t. t\<lparr>t_status := QUEUED\<rparr>) s)"
      by (rule status_of_cong_fun) simp
    with status_of_upd[OF t] show "status_of (scheduleTask tid s) = (status_of s)(tid \<mapsto> QUEUED)"
      by simp
  next
    show "status_of s tid = Some PENDING" by (rule p)
  next
    show "compat (Some ?c) QUEUED" by simp
  next
    from none pc_of_scheduleTask[OF none]
    show "released (scheduleTask tid s) tid = released s tid" by (simp add: released_def)
  next
    fix p assume "pc_of s tid = None"
    show "\<forall>p. (p, tid) \<in> edges (dependents s) \<longrightarrow> released s p"
      using zero_indegree_parents[OF a0 z] by blast
  qed simp_all
qed

subsection \<open>The steps of one process\<close>

lemma skip_inv_cong:
  assumes "procs s' = procs s" "tasks s' = tasks s" "dependents s' = dependents s"
    "indegree s' = indegree s" "failedTasks s' = failedTasks s"
  shows "skip_inv s' = skip_inv s"
proof -
  have pc: "pc_of s' = pc_of s" by (rule pc_of_cong) (rule assms)
  have st: "status_of s' = status_of s" by (rule status_of_cong_fun) (rule assms)
  have er: "error_of s' = error_of s" by (rule ext) (simp add: error_of_def assms)
  have ind: "indegree_of s' = indegree_of s" by (rule ext) (simp add: indegree_of_def assms)
  have rel: "released s' = released s" by (rule ext) (simp add: released_def pc st)
  have pe: "pending_edges s' = pending_edges s"
    by (rule pending_edges_cong) (rule rel, rule assms)
  show ?thesis
    by (simp add: skip_inv_def consistent_def accounted_def parents_released_def
        skipped_named_def pc st er ind rel pe assms)
qed

lemma upd_task_id: "tasks (upd_task k (\<lambda>t. t) s) = tasks s"
  by (auto simp: upd_task_def intro!: map_idI)

lemma proc_task:
  assumes "skip_inv s" and "pid < length (procs s)"
  shows "\<exists>t. map_of (tasks s) (p_task (procs s ! pid)) = Some t
             \<and> compat (Some (p_pc (procs s ! pid))) (t_status t)"
proof -
  from assms(1) have d: "distinct (map p_task (procs s))" and c: "consistent s"
    by (simp_all add: skip_inv_def)
  from consistentD(2)[OF c pc_of_nth[OF d assms(2)]]
  obtain st where "status_of s (p_task (procs s ! pid)) = Some st"
    "compat (Some (p_pc (procs s ! pid))) st" by blast
  then show ?thesis by (auto simp: status_of_def)
qed

lemma skip_inv_local:
  assumes inv: "skip_inv s" and pid: "pid < length (procs s)"
    and t: "map_of (tasks s) (p_task (procs s ! pid)) = Some t"
    and g: "p_task (g (procs s ! pid)) = p_task (procs s ! pid)"
    and co: "compat (Some (p_pc (g (procs s ! pid)))) (t_status (f t))"
    and rel: "(t_status (f t) = COMPLETED
                 \<and> (p_pc (g (procs s ! pid)) = Releasing \<or> p_pc (g (procs s ! pid)) = Finished))
              \<longleftrightarrow> (t_status t = COMPLETED
                 \<and> (p_pc (procs s ! pid) = Releasing \<or> p_pc (procs s ! pid) = Finished))"
    and keep: "t_status t = FAILED \<Longrightarrow> t_status (f t) = FAILED"
    and tasks': "tasks s' = tasks (upd_task (p_task (procs s ! pid)) f s)"
    and procs': "procs s' = procs (set_proc pid g s)"
    and deps: "dependents s' = dependents s"
    and ind: "indegree s' = indegree s"
    and failed: "set (failedTasks s) \<subseteq> set (failedTasks s')"
  shows "skip_inv s'"
proof -
  let ?k = "p_task (procs s ! pid)"
  from inv have d: "distinct (map p_task (procs s))" by (simp add: skip_inv_def)
  have pc0: "pc_of s ?k = Some (p_pc (procs s ! pid))" by (rule pc_of_nth[OF d pid])
  have pc: "pc_of s' = (pc_of s)(?k := Some (p_pc (g (procs s ! pid))))"
    using pc_of_cong[OF procs'] pc_of_set_proc[where g = g, OF d pid g] by simp
  have st: "status_of s' = (status_of s)(?k \<mapsto> t_status (f t))"
    using status_of_cong_fun[OF tasks'] status_of_upd[OF t] by simp
  have st0: "status_of s ?k = Some (t_status t)" using t by (simp add: status_of_def)
  have D: "distinct (map p_task (procs s'))"
    using distinct_set_proc[where g = g, OF d pid g] procs' by simp
  have REL: "released s' ?k = released s ?k"
    using pc st pc0 st0 rel by (simp add: released_def)
  have ERR: "error_of s' d = error_of s d" if "d \<noteq> ?k" for d
    using that error_of_cong[OF tasks', of d] error_of_upd[of ?k f s d] by simp
  show ?thesis
    by (rule skip_inv_move[OF inv D pc st st0 co REL deps ind failed ERR keep])
       (use pc0 co in simp_all)
qed

subsection \<open>onTaskCompleted\<close>

lemma release_children_indegree:
  assumes "release_children cs s nr = (s', nr')"
  shows "indegree_of s' c = indegree_of s c - int (count_list cs c)"
  using assms
proof (induction cs arbitrary: s nr)
  case Nil
  then show ?case by simp
next
  case (Cons x cs)
  let ?s1 = "s\<lparr>indegree := AList.update x (indegree_of s x - 1) (indegree s)\<rparr>"
  from Cons.prems obtain nr1 where "release_children cs ?s1 nr1 = (s', nr')"
    by (simp add: Let_def split: if_splits)
  from Cons.IH[OF this] show ?case by simp
qed

lemma set_proc_scheduleTask:
  assumes "pid < length (procs s)"
  shows "set_proc pid g (scheduleTask tid s) = scheduleTask tid (set_proc pid g s)"
  using assms
  by (simp add: scheduleTask_def set_proc_def upd_task_def Let_def list_update_append1 nth_append)

lemma set_proc_fold_scheduleTask:
  "pid < length (procs s)
   \<Longrightarrow> set_proc pid g (fold scheduleTask ids s) = fold scheduleTask ids (set_proc pid g s)"
proof (induction ids arbitrary: s)
  case Nil
  show ?case by simp
next
  case (Cons i ids)
  from Cons.prems have "pid < length (procs (scheduleTask i s))" by simp
  from Cons.IH[OF this] set_proc_scheduleTask[OF Cons.prems] show ?case by simp
qed

lemma skip_inv_fold_scheduleTask:
  assumes "skip_inv s" and "distinct ids"
    and "\<forall>c \<in> set ids. status_of s c = Some PENDING \<and> indegree_of s c \<le> 0"
  shows "skip_inv (fold scheduleTask ids s)"
  using assms
proof (induction ids arbitrary: s)
  case Nil
  then show ?case by simp
next
  case (Cons i ids)
  from Cons.prems have i: "status_of s i = Some PENDING" "indegree_of s i \<le> 0" by simp_all
  have 1: "skip_inv (scheduleTask i s)" by (rule skip_inv_scheduleTask[OF Cons.prems(1) i])
  from Cons.prems(2) have 2: "distinct ids" and ni: "i \<notin> set ids" by simp_all
  have 3: "\<forall>c \<in> set ids. status_of (scheduleTask i s) c = Some PENDING
              \<and> indegree_of (scheduleTask i s) c \<le> 0"
  proof
    fix c assume c: "c \<in> set ids"
    with ni have "c \<noteq> i" by auto
    then have "status_of (scheduleTask i s) c = status_of s c"
      using status_of_cong[of "scheduleTask i s" "upd_task i (\<lambda>t. t\<lparr>t_status := QUEUED\<rparr>) s" c]
      by (simp add: status_of_upd_task)
    moreover have "indegree_of (scheduleTask i s) c = indegree_of s c"
      by (rule indegree_of_cong) simp
    ultimately show "status_of (scheduleTask i s) c = Some PENDING
              \<and> indegree_of (scheduleTask i s) c \<le> 0"
      using Cons.prems(3) c by simp
  qed
  from Cons.IH[OF 1 2 3] show ?case by simp
qed

lemma skip_inv_onTaskCompleted:
  assumes inv: "skip_inv s" and pid: "pid < length (procs s)"
    and at: "p_pc (procs s ! pid) = Completing"
  shows "skip_inv (set_proc pid (\<lambda>p. p\<lparr>p_pc := Releasing\<rparr>)
                    (onTaskCompleted (p_task (procs s ! pid)) s))"
proof -
  let ?k = "p_task (procs s ! pid)"
  let ?g = "\<lambda>p. p\<lparr>p_pc := Releasing\<rparr>"
  obtain s1 nr where r: "release_children (children (dependents s) ?k) s [] = (s1, nr)"
    and o: "onTaskCompleted ?k s = fold scheduleTask nr s1"
    by (rule onTaskCompleted_unfold)
  from release_children_fields[OF r] have f: "tasks s1 = tasks s" "procs s1 = procs s"
    "dependents s1 = dependents s" "failedTasks s1 = failedTasks s" by simp_all
  let ?s2 = "set_proc pid ?g s1"
  have pid1: "pid < length (procs s1)" using f pid by simp
  have eq: "set_proc pid ?g (onTaskCompleted ?k s) = fold scheduleTask nr ?s2"
    using o set_proc_fold_scheduleTask[OF pid1] by simp
  from inv have d: "distinct (map p_task (procs s))" by (simp add: skip_inv_def)
  then have d1: "distinct (map p_task (procs s1))" using f by simp
  have pc0: "pc_of s ?k = Some Completing" using pc_of_nth[OF d pid] at by simp
  have g1: "p_task (?g (procs s1 ! pid)) = p_task (procs s1 ! pid)" by simp
  have inv2: "skip_inv ?s2"
  proof (rule skip_inv_complete[OF inv _ pc0])
    show "distinct (map p_task (procs ?s2))" by (rule distinct_set_proc[where g = "?g", OF d1 pid1 g1])
    have "pc_of s1 = pc_of s" by (rule pc_of_cong) (rule f)
    with pc_of_set_proc[where g = "?g", OF d1 pid1 g1] f(2) show "pc_of ?s2 = (pc_of s)(?k \<mapsto> Releasing)"
      by simp
    show "status_of ?s2 = status_of s" by (rule status_of_cong_fun) (simp add: f)
    show "dependents ?s2 = dependents s" by (simp add: f)
    show "indegree_of ?s2 c = indegree_of s c - int (count_list (children (dependents s) ?k) c)"
      for c
      using indegree_of_cong[of ?s2 s1 c] release_children_indegree[OF r, of c] by simp
    show "failedTasks ?s2 = failedTasks s" by (simp add: f)
    show "error_of ?s2 d = error_of s d" for d by (rule error_of_cong) (simp add: f)
  qed
  from release_children_newlyReady[OF r]
  have nr: "distinct nr" "\<forall>c \<in> set nr. indegree_of s1 c \<le> 0
               \<and> (\<exists>t. map_of (tasks s) c = Some t \<and> t_status t = PENDING)" by simp_all
  have "\<forall>c \<in> set nr. status_of ?s2 c = Some PENDING \<and> indegree_of ?s2 c \<le> 0"
  proof
    fix c assume "c \<in> set nr"
    with nr(2) obtain t where "indegree_of s1 c \<le> 0" "map_of (tasks s) c = Some t"
      "t_status t = PENDING" by blast
    moreover have "status_of ?s2 c = status_of s c" by (rule status_of_cong) (simp add: f)
    moreover have "indegree_of ?s2 c = indegree_of s1 c" by (rule indegree_of_cong) simp
    ultimately show "status_of ?s2 c = Some PENDING \<and> indegree_of ?s2 c \<le> 0"
      by (simp add: status_of_def)
  qed
  from skip_inv_fold_scheduleTask[OF inv2 nr(1) this] eq show ?thesis by simp
qed

subsection \<open>skipDependentTasks\<close>

lemma ancestors_released:
  assumes "parents_released s" and "(a, d) \<in> (edges (dependents s))\<^sup>+"
  shows "pc_of s d \<noteq> None \<longrightarrow> released s a"
  using assms(2)
proof (induction rule: trancl_induct)
  case (base y)
  with assms(1) show ?case unfolding parents_released_def by blast
next
  case (step y z)
  show ?case
  proof
    assume "pc_of s z \<noteq> None"
    with assms(1) step.hyps(2) have "released s y" unfolding parents_released_def by blast
    then have "pc_of s y \<noteq> None" by (auto simp: released_def)
    with step.IH show "released s a" by simp
  qed
qed

lemma below_failed_no_process:
  assumes "skip_inv s" and "status_of s f = Some FAILED"
    and "(f, d) \<in> (edges (dependents s))\<^sup>+"
  shows "pc_of s d = None"
proof (rule ccontr)
  assume "pc_of s d \<noteq> None"
  moreover from assms(1) have "parents_released s" by (simp add: skip_inv_def)
  ultimately have "released s f" using ancestors_released assms(3) by blast
  with assms(2) show False by (simp add: released_def)
qed

lemma skip_inv_skip_one:
  assumes inv: "skip_inv s" and f: "status_of s f = Some FAILED"
    and e: "(f, d) \<in> (edges (dependents s))\<^sup>+" and stored: "status_of s d = Some st"
  shows "skip_inv (skip_one f d s)"
proof -
  let ?F = "\<lambda>t. t\<lparr>t_status := SKIPPED, t_error := Some (skip_message f)\<rparr>"
  let ?s' = "skip_one f d s"
  from inv have c0: "consistent s" by (simp add: skip_inv_def)
  have none: "pc_of s d = None" by (rule below_failed_no_process[OF inv f e])
  from consistentD(1)[OF c0 stored] none have st: "st \<noteq> FAILED" by auto
  with f stored have fd: "f \<noteq> d" by auto
  from stored obtain t where t: "map_of (tasks s) d = Some t" by (auto simp: status_of_def)
  have pc: "pc_of ?s' = (pc_of s)(d := None)"
    using pc_of_cong[of ?s' s] none by (simp add: fun_upd_idem)
  have st': "status_of ?s' = (status_of s)(d \<mapsto> SKIPPED)"
    using status_of_cong_fun[of ?s' "upd_task d ?F s"] status_of_upd[OF t, of ?F] by simp
  have REL: "released ?s' d = released s d" using pc none by (simp add: released_def)
  have failed: "set (failedTasks s) \<subseteq> set (failedTasks ?s')"
    by (auto simp: skip_one_def set_add_def)
  have ERR: "error_of ?s' x = error_of s x" if "x \<noteq> d" for x
    using that error_of_cong[of ?s' "upd_task d ?F s" x] error_of_upd[of d ?F s x] by simp
  have err: "error_of ?s' d = Some (skip_message f)"
    using error_of_cong[of ?s' "upd_task d ?F s" d] error_of_upd[of d ?F s d] t by simp
  have mem: "d \<in> set (failedTasks ?s')" by (simp add: skip_one_def set_add_def)
  show ?thesis
  proof (rule skip_inv_move[OF inv _ pc st' stored _ REL _ _ failed ERR])
    show "distinct (map p_task (procs ?s'))" using inv by (simp add: skip_inv_def)
    show "compat None SKIPPED" by simp
    show "dependents ?s' = dependents s" by simp
    show "indegree ?s' = indegree s" by simp
    show "SKIPPED = FAILED" if "st = FAILED" using that st by simp
    show "\<forall>p. (p, d) \<in> edges (dependents s) \<longrightarrow> released s p"
      if "pc_of s d = None" and "(None :: pc option) \<noteq> None" using that by simp
    show "d \<in> set (failedTasks ?s')
          \<and> (\<exists>g. (g, d) \<in> (edges (dependents s))\<^sup>+ \<and> status_of s g = Some FAILED
                  \<and> g \<noteq> d \<and> error_of ?s' d = Some (skip_message g))"
      using mem e f fd err by blast
  qed
qed

lemma skip_inv_fold_skip_one:
  assumes "skip_inv s" and "status_of s f = Some FAILED"
    and "\<forall>d \<in> set ds. (f, d) \<in> (edges (dependents s))\<^sup>+ \<and> status_of s d \<noteq> None"
  shows "skip_inv (fold (skip_one f) ds s)"
  using assms
proof (induction ds arbitrary: s)
  case Nil
  then show ?case by simp
next
  case (Cons d ds)
  from Cons.prems(3) obtain st where d: "(f, d) \<in> (edges (dependents s))\<^sup>+"
    "status_of s d = Some st" by auto
  let ?F = "\<lambda>t. t\<lparr>t_status := SKIPPED, t_error := Some (skip_message f)\<rparr>"
  let ?s1 = "skip_one f d s"
  have 1: "skip_inv ?s1" by (rule skip_inv_skip_one[OF Cons.prems(1,2) d])
  from Cons.prems(1) have c0: "consistent s" by (simp add: skip_inv_def)
  have "pc_of s d = None" by (rule below_failed_no_process[OF Cons.prems(1,2) d(1)])
  with consistentD(1)[OF c0 d(2)] have "st \<noteq> FAILED" by auto
  with Cons.prems(2) d(2) have fd: "f \<noteq> d" by auto
  have st: "status_of ?s1 x = (if x = d then map_option (\<lambda>t. SKIPPED) (map_of (tasks s) x)
                              else status_of s x)" for x
    using status_of_cong[of ?s1 "upd_task d ?F s" x] by (simp add: status_of_upd_task)
  from st[of f] fd Cons.prems(2) have 2: "status_of ?s1 f = Some FAILED" by simp
  have 3: "\<forall>x \<in> set ds. (f, x) \<in> (edges (dependents ?s1))\<^sup>+ \<and> status_of ?s1 x \<noteq> None"
  proof
    fix x assume "x \<in> set ds"
    with Cons.prems(3) have "(f, x) \<in> (edges (dependents s))\<^sup>+" "status_of s x \<noteq> None" by auto
    then show "(f, x) \<in> (edges (dependents ?s1))\<^sup>+ \<and> status_of ?s1 x \<noteq> None"
      using st[of x] by (auto simp: status_of_def)
  qed
  from Cons.IH[OF 1 2 3] show ?case by simp
qed

subsection \<open>Every step keeps the invariants of the cascade\<close>

lemma descendant_stored:
  assumes "\<forall>p c. (p, c) \<in> edges (dependents s) \<longrightarrow> status_of s c \<noteq> None"
    and "(f, d) \<in> (edges (dependents s))\<^sup>+"
  shows "status_of s d \<noteq> None"
proof -
  from assms(2) obtain z where "(z, d) \<in> edges (dependents s)" by (blast dest: tranclD2)
  with assms(1) show ?thesis by blast
qed

lemma skip_inv_failing:
  assumes inv: "skip_inv s" and pid: "pid < length (procs s)"
    and at: "p_pc (procs s ! pid) = Failing"
    and stored: "\<forall>p c. (p, c) \<in> edges (dependents s) \<longrightarrow> status_of s c \<noteq> None"
  shows "skip_inv (set_proc pid (\<lambda>p. p\<lparr>p_pc := Releasing\<rparr>)
                    (skipDependentTasks (p_task (procs s ! pid)) s))"
proof -
  let ?k = "p_task (procs s ! pid)"
  let ?s1 = "skipDependentTasks ?k s"
  from proc_task[OF inv pid] at have f: "status_of s ?k = Some FAILED"
    by (auto simp: status_of_def)
  have "\<forall>d \<in> set (bfs (dependents s) (children (dependents s) ?k) []).
          (?k, d) \<in> (edges (dependents s))\<^sup>+ \<and> status_of s d \<noteq> None"
    using descendant_stored[OF stored] by (simp add: bfs_descendants)
  from skip_inv_fold_skip_one[OF inv f this] have inv1: "skip_inv ?s1"
    by (simp add: skipDependentTasks_def)
  have pid1: "pid < length (procs ?s1)" using pid by simp
  from proc_task[OF inv1 pid1] at obtain t1 where
    t1: "map_of (tasks ?s1) ?k = Some t1" "t_status t1 = FAILED" by auto
  show ?thesis
    by (rule skip_inv_local[where f = "\<lambda>t. t" and g = "\<lambda>p. p\<lparr>p_pc := Releasing\<rparr>" and t = t1,
          OF inv1 pid1])
       (use t1 at in \<open>simp_all add: upd_task_id\<close>)
qed

lemma skip_inv_release:
  assumes inv: "skip_inv s" and sem: "sem_inv s" and pid: "pid < length (procs s)"
    and at: "p_pc (procs s ! pid) = Releasing"
  shows "skip_inv (release (set_proc pid
            (\<lambda>p. if p_depth p = 0 then p\<lparr>p_pc := Finished\<rparr> else p\<lparr>p_depth := p_depth p - 1\<rparr>) s))"
proof -
  let ?g = "\<lambda>p. if p_depth p = 0 then p\<lparr>p_pc := Finished\<rparr> else p\<lparr>p_depth := p_depth p - 1\<rparr>"
  let ?s1 = "set_proc pid ?g s"
  from proc_task[OF inv pid] at obtain t where
    t: "map_of (tasks s) (p_task (procs s ! pid)) = Some t"
       "t_status t = COMPLETED \<or> t_status t = FAILED" by auto
  have inv1: "skip_inv ?s1"
    by (rule skip_inv_local[where f = "\<lambda>t. t" and g = ?g and t = t, OF inv pid])
       (use t at in \<open>auto simp: upd_task_id\<close>)
  show ?thesis
  proof (cases "waiting s")
    case Nil
    then have "release ?s1 = ?s1\<lparr>permits := permits ?s1 + 1\<rparr>"
      by (simp add: release_def Let_def)
    moreover have "skip_inv (?s1\<lparr>permits := permits ?s1 + 1\<rparr>) = skip_inv ?s1"
      by (rule skip_inv_cong) simp_all
    ultimately show ?thesis using inv1 by simp
  next
    case (Cons n rest)
    let ?s2 = "?s1\<lparr>permits := permits ?s1 + 1 - 1, waiting := rest\<rparr>"
    from Cons sem have n: "n < length (procs s)" "p_pc (procs s ! n) = Waiting"
      by (simp_all add: sem_inv_def)
    with at have np: "n \<noteq> pid" by auto
    have r: "release ?s1 = set_proc n (\<lambda>p. p\<lparr>p_pc := Acquired\<rparr>) ?s2"
      using Cons by (simp add: release_def Let_def)
    have "skip_inv ?s2 = skip_inv ?s1" by (rule skip_inv_cong) simp_all
    with inv1 have inv2: "skip_inv ?s2" by simp
    have n2: "n < length (procs ?s2)" using n by simp
    have pn: "procs ?s2 ! n = procs s ! n" using np n by simp
    from proc_task[OF inv2 n2] pn n(2) obtain tn where
      tn: "map_of (tasks ?s2) (p_task (procs ?s2 ! n)) = Some tn" "t_status tn = QUEUED" by auto
    have "skip_inv (set_proc n (\<lambda>p. p\<lparr>p_pc := Acquired\<rparr>) ?s2)"
      by (rule skip_inv_local[where f = "\<lambda>t. t" and g = "\<lambda>p. p\<lparr>p_pc := Acquired\<rparr>" and t = tn,
            OF inv2 n2 tn(1)])
         (use tn(2) pn n(2) in \<open>simp_all add: upd_task_id\<close>)
    with r show ?thesis by simp
  qed
qed

lemma skip_inv_step:
  assumes inv: "skip_inv s" and sem: "sem_inv s"
    and stored: "\<forall>p c. (p, c) \<in> edges (dependents s) \<longrightarrow> status_of s c \<noteq> None"
    and st: "step X s pid = Some s'"
  shows "skip_inv s'"
  using st
proof (cases rule: step_cases)
  case (Acquired t)
  from proc_task[OF inv Acquired(1)] Acquired(2,3) have q: "t_status t = QUEUED" by simp
  show ?thesis
    by (rule skip_inv_local[where g = "\<lambda>p. p\<lparr>p_pc := Started\<rparr>"
          and f = "\<lambda>t. t\<lparr>t_status := RUNNING, t_attempts := t_attempts t + 1\<rparr>",
          OF inv Acquired(1,2)])
       (use Acquired(3,4) q in simp_all)
next
  case (Started t)
  from proc_task[OF inv Started(1)] Started(2,3) have q: "t_status t = RUNNING" by simp
  show ?thesis
    by (rule skip_inv_local[where g = "\<lambda>p. p\<lparr>p_pc := Executing\<rparr>" and f = "\<lambda>t. t",
          OF inv Started(1,2)])
       (use Started(3,4) q in \<open>simp_all add: upd_task_id\<close>)
next
  case (Resolved t res)
  from proc_task[OF inv Resolved(1)] Resolved(2,3) have q: "t_status t = RUNNING" by simp
  show ?thesis
    by (rule skip_inv_local[where g = "\<lambda>p. p\<lparr>p_pc := Completing\<rparr>"
          and f = "\<lambda>t. t\<lparr>t_status := COMPLETED, t_result := Some res\<rparr>",
          OF inv Resolved(1,2)])
       (use Resolved(3,5) q in simp_all)
next
  case (Retry t errorMessage)
  from proc_task[OF inv Retry(1)] Retry(2,3) have q: "t_status t = RUNNING" by simp
  show ?thesis
    by (rule skip_inv_local[where g = "\<lambda>p. p\<lparr>p_pc := Retrying\<rparr>" and f = "\<lambda>t. t",
          OF inv Retry(1,2)])
       (use Retry(3,6) q in \<open>simp_all add: upd_task_id\<close>)
next
  case (Exhausted t errorMessage)
  from proc_task[OF inv Exhausted(1)] Exhausted(2,3) have q: "t_status t = RUNNING" by simp
  show ?thesis
    by (rule skip_inv_local[where g = "\<lambda>p. p\<lparr>p_pc := Failing\<rparr>"
          and f = "\<lambda>t. t\<lparr>t_status := FAILED, t_error := Some errorMessage\<rparr>",
          OF inv Exhausted(1,2)])
       (use Exhausted(3,6) q in \<open>auto simp: set_add_def\<close>)
next
  case (Completing t)
  with skip_inv_onTaskCompleted[OF inv Completing(1,3)] show ?thesis by simp
next
  case (Retrying t)
  from proc_task[OF inv Retrying(1)] Retrying(2,3) have q: "t_status t = RUNNING" by simp
  show ?thesis
    by (rule skip_inv_local[where g = "\<lambda>p. p\<lparr>p_pc := Delaying\<rparr>" and f = "\<lambda>t. t",
          OF inv Retrying(1,2)])
       (use Retrying(3,4) q in \<open>simp_all add: upd_task_id\<close>)
next
  case (Delaying t)
  from proc_task[OF inv Delaying(1)] Delaying(2,3) have q: "t_status t = RUNNING" by simp
  show ?thesis
    by (rule skip_inv_local[where
          g = "\<lambda>p. p\<lparr>p_pc := (if permits s > 0 then Acquired else Waiting),
                     p_depth := Suc (p_depth p)\<rparr>"
          and f = "\<lambda>t. t\<lparr>t_status := QUEUED\<rparr>",
          OF inv Delaying(1,2)])
       (use Delaying(3,4) q in \<open>simp_all add: rescheduleTask_def Let_def\<close>)
next
  case (Failing t)
  with skip_inv_failing[OF inv Failing(1,3) stored] show ?thesis by simp
next
  case (Releasing t)
  with skip_inv_release[OF inv sem Releasing(1,3)] show ?thesis by simp
qed

subsection \<open>The invariants of the cascade at the start of a run\<close>

lemma no_procs_pending:
  assumes "procs s = []"
  shows "pending_edges s c = sum_list (map (\<lambda>(p, cs). int (count_list cs c)) (dependents s))"
proof -
  from assms have "released s p = False" for p by (simp add: released_def pc_of_def)
  then show ?thesis by (simp add: pending_edges_def)
qed

lemma update_existing:
  assumes "distinct (map fst al)" and "k \<in> fst ` set al"
  shows "AList.update k v al = map (\<lambda>e. if fst e = k then (k, v) else e) al"
  using assms
proof (induction al)
  case Nil
  then show ?case by simp
next
  case (Cons e al)
  show ?case
  proof (cases "fst e = k")
    case True
    with Cons.prems(1) have "\<forall>x \<in> set al. fst x \<noteq> k" by (auto simp: image_iff)
    then have "map (\<lambda>e. if fst e = k then (k, v) else e) al = al" by (intro map_idI) simp
    with True show ?thesis by (cases e) simp
  next
    case False
    with Cons.prems have "distinct (map fst al)" "k \<in> fst ` set al" by auto
    from Cons.IH[OF this] False show ?thesis by (cases e) simp
  qed
qed

lemma total_update:
  assumes d: "distinct (map fst g)" and m: "map_of g p = Some cs0"
  shows "sum_list (map (\<lambda>(p, cs). int (count_list cs c)) (AList.update p (cs0 @ [child]) g))
         = sum_list (map (\<lambda>(p, cs). int (count_list cs c)) g) + (if c = child then 1 else 0)"
proof -
  let ?f = "\<lambda>(p, cs). int (count_list cs c)"
  let ?h = "\<lambda>e. if fst e = p then (p, cs0 @ [child]) else e"
  from m have e: "(p, cs0) \<in> set g" by (rule map_of_SomeD)
  then have "p \<in> fst ` set g" by force
  from update_existing[OF d this] have "AList.update p (cs0 @ [child]) g = map ?h g" .
  then have "sum_list (map ?f (AList.update p (cs0 @ [child]) g))
             = sum_list (map (\<lambda>e. ?f (?h e)) g)"
    by (simp add: comp_def)
  also have "\<dots> = sum_list (map ?f g) - ?f (p, cs0) + ?f (?h (p, cs0))"
    by (rule sum_list_change_one[OF d e]) simp
  finally show ?thesis by simp
qed

lemma update_member:
  "e \<in> set (AList.update k v al) \<Longrightarrow> e = (k, v) \<or> e \<in> set al"
  by (induction al) (auto split: if_splits)

lemma init_tasks_empty:
  assumes "\<forall>e \<in> set (dependents s). snd e = []" and "\<forall>c. indegree_of s c = 0"
    and "distinct (map fst (dependents s))"
    and "fst ` set (tasks s) \<subseteq> fst ` set (dependents s)"
  shows "(\<forall>e \<in> set (dependents (init_tasks ts s)). snd e = [])
         \<and> (\<forall>c. indegree_of (init_tasks ts s) c = 0)
         \<and> distinct (map fst (dependents (init_tasks ts s)))
         \<and> fst ` set (tasks (init_tasks ts s)) \<subseteq> fst ` set (dependents (init_tasks ts s))"
  using assms
proof (induction ts arbitrary: s)
  case Nil
  then show ?case by simp
next
  case (Cons task ts)
  let ?s1 = "s\<lparr>tasks := AList.update (t_id task)
                     (task\<lparr>t_status := PENDING, t_attempts := 0,
                            t_maxAttempts :=
                              (case t_maxAttempts task of
                                 None \<Rightarrow> Some (defaultMaxAttempts (options s))
                               | Some m \<Rightarrow> Some m)\<rparr>)
                     (tasks s),
          indegree := AList.update (t_id task) 0 (indegree s),
          dependents := AList.update (t_id task) [] (dependents s)\<rparr>"
  have 1: "\<forall>e \<in> set (dependents ?s1). snd e = []"
    using Cons.prems(1) by (auto dest: update_member)
  have 2: "\<forall>c. indegree_of ?s1 c = 0"
    using Cons.prems(2) by (simp add: indegree_of_def update_conv')
  have 3: "distinct (map fst (dependents ?s1))"
    using Cons.prems(3) by (simp add: distinct_update)
  have 4: "fst ` set (tasks ?s1) \<subseteq> fst ` set (dependents ?s1)"
    using Cons.prems(4) by (auto simp: dom_update)
  from Cons.IH[OF 1 2 3 4] show ?case by simp
qed

lemma accounted_add_edges:
  assumes "procs s = []" and "accounted s"
    and "fst ` set (tasks s) \<subseteq> fst ` set (dependents s)"
  shows "accounted (add_edges child ps s)
         \<and> fst ` set (tasks (add_edges child ps s)) \<subseteq> fst ` set (dependents (add_edges child ps s))"
  using assms
proof (induction ps arbitrary: s)
  case Nil
  then show ?case by simp
next
  case (Cons p ps)
  show ?case
  proof (cases "p \<in> fst ` set (tasks s)")
    case False
    with Cons.IH[OF Cons.prems] show ?thesis by simp
  next
    case True
    let ?s1 = "s\<lparr>dependents := AList.update p (children (dependents s) p @ [child]) (dependents s),
                  indegree := AList.update child (indegree_of s child + 1) (indegree s)\<rparr>"
    from Cons.prems(2) have d: "distinct (map fst (dependents s))"
      and i: "\<And>c. indegree_of s c = pending_edges s c" by (simp_all add: accounted_def)
    from True Cons.prems(3) have "p \<in> fst ` set (dependents s)" by auto
    then obtain cs0 where m: "map_of (dependents s) p = Some cs0"
      by (cases "map_of (dependents s) p") (auto simp: map_of_eq_None_iff)
    then have ch: "children (dependents s) p = cs0" by (simp add: children_def)
    have p1: "procs ?s1 = []" using Cons.prems(1) by simp
    have "indegree_of ?s1 c = pending_edges ?s1 c" for c
    proof -
      have "indegree_of ?s1 c = indegree_of s c + (if c = child then 1 else 0)"
        by (simp add: indegree_of_def update_conv')
      moreover have "pending_edges ?s1 c = pending_edges s c + (if c = child then 1 else 0)"
        using no_procs_pending[OF p1, of c] no_procs_pending[OF Cons.prems(1), of c]
          total_update[OF d m, of c child] ch by simp
      ultimately show ?thesis using i by simp
    qed
    moreover have "distinct (map fst (dependents ?s1))" using d by (simp add: distinct_update)
    ultimately have a1: "accounted ?s1" by (simp add: accounted_def)
    have k1: "fst ` set (tasks ?s1) \<subseteq> fst ` set (dependents ?s1)"
      using Cons.prems(3) by (auto simp: dom_update)
    from Cons.IH[OF p1 a1 k1] True show ?thesis by simp
  qed
qed

lemma accounted_build_graph:
  assumes "procs s = []" and "accounted s"
    and "fst ` set (tasks s) \<subseteq> fst ` set (dependents s)"
  shows "accounted (build_graph ts s)"
  using assms
proof (induction ts arbitrary: s)
  case Nil
  then show ?case by simp
next
  case (Cons task ts)
  let ?s1 = "add_edges (t_id task) (t_dependencies task) s"
  from accounted_add_edges[OF Cons.prems, of "t_id task" "t_dependencies task"] Cons.prems(1)
  have "procs ?s1 = []" "accounted ?s1" "fst ` set (tasks ?s1) \<subseteq> fst ` set (dependents ?s1)"
    by simp_all
  from Cons.IH[OF this] show ?case by simp
qed

lemma accounted_loadPlan: "accounted (loadPlan ts (new_scheduler opts))"
proof -
  let ?r = "reset (new_scheduler opts)"
  let ?i = "init_tasks ts ?r"
  have "\<forall>e \<in> set (dependents ?r). snd e = []" "\<forall>c. indegree_of ?r c = 0"
    "distinct (map fst (dependents ?r))" "fst ` set (tasks ?r) \<subseteq> fst ` set (dependents ?r)"
    by (simp_all add: reset_def new_scheduler_def indegree_of_def)
  from init_tasks_empty[OF this, of ts]
  have e: "\<forall>e \<in> set (dependents ?i). snd e = []" and z: "\<And>c. indegree_of ?i c = 0"
    and d: "distinct (map fst (dependents ?i))"
    and k: "fst ` set (tasks ?i) \<subseteq> fst ` set (dependents ?i)" by simp_all
  have p: "procs ?i = []" by (simp add: reset_def new_scheduler_def)
  have "pending_edges ?i c = 0" for c
  proof -
    have "sum_list (map (\<lambda>(p, cs). int (count_list cs c)) (dependents ?i))
          = sum_list (map (\<lambda>e. 0) (dependents ?i))"
      by (rule sum_list_same) (use e in auto)
    also have "\<dots> = 0" by simp
    finally show ?thesis using no_procs_pending[OF p, of c] by simp
  qed
  with z d have "accounted ?i" by (simp add: accounted_def)
  from accounted_build_graph[OF p this k] show ?thesis by (simp add: loadPlan_def)
qed

lemma skip_inv_loadPlan: "skip_inv (loadPlan ts (new_scheduler opts))"
proof -
  let ?l = "loadPlan ts (new_scheduler opts)"
  have p: "procs ?l = []" by simp
  then have pc: "pc_of ?l k = None" for k by (simp add: pc_of_def)
  have st: "st = PENDING" if "status_of ?l k = Some st" for k st
  proof -
    from that obtain t where "map_of (tasks ?l) k = Some t" "t_status t = st"
      by (auto simp: status_of_def)
    with loadPlan_tasks(2)[of ts opts k t] show ?thesis by (simp add: normalised_def)
  qed
  have "consistent ?l" using pc st by (auto simp: consistent_def)
  moreover have "parents_released ?l" using pc by (simp add: parents_released_def)
  moreover have "skipped_named ?l" using st by (auto simp: skipped_named_def)
  ultimately show ?thesis using p accounted_loadPlan by (simp add: skip_inv_def)
qed

lemma ready_batch:
  fixes ts opts
  defines "l \<equiv> loadPlan ts (new_scheduler opts)"
  shows "\<forall>c \<in> set (map t_id (getReadyTasks l)). status_of l c = Some PENDING \<and> indegree_of l c \<le> 0"
proof
  fix c assume c: "c \<in> set (map t_id (getReadyTasks l))"
  with initial_batch(2)[of ts opts] have "status_of l c = Some PENDING"
    by (auto simp: l_def status_of_def)
  moreover from c have "indegree_of l c = 0" by (auto simp: getReadyTasks_def)
  ultimately show "status_of l c = Some PENDING \<and> indegree_of l c \<le> 0" by simp
qed

lemma skip_inv_start:
  assumes "load_and_run opts ts = Some (Inr s0)"
  shows "skip_inv s0"
  using skip_inv_fold_scheduleTask[OF skip_inv_loadPlan initial_batch(1) ready_batch]
    load_and_run_Inr[OF assms] by simp

lemma edge_stored:
  assumes "load_and_run opts ts = Some (Inr s0)" and "reaches X s0 s"
  shows "\<forall>p c. (p, c) \<in> edges (dependents s) \<longrightarrow> status_of s c \<noteq> None"
proof (intro allI impI)
  fix p c assume "(p, c) \<in> edges (dependents s)"
  with reaches_graph(1)[OF assms] have "(p, c) \<in> dependency_edges ts" by simp
  then have "c \<in> t_id ` set ts" by (auto simp: dependency_edges_def)
  with reaches_graph(2)[OF assms] have "c \<in> fst ` set (tasks s)" by simp
  then have "map_of (tasks s) c \<noteq> None" by (simp add: map_of_eq_None_iff)
  then show "status_of s c \<noteq> None" by (simp add: status_of_def)
qed

lemma reaches_skip_inv:
  assumes "load_and_run opts ts = Some (Inr s0)" and "reaches X s0 s"
  shows "skip_inv s"
  using assms(2)
proof (induction rule: reaches.induct)
  case reaches_start
  show ?case by (rule skip_inv_start[OF assms(1)])
next
  case (reaches_step s pid s')
  from skip_inv_step[OF reaches_step.IH reaches_invariants(1)[OF assms(1) reaches_step.hyps(1)]
      edge_stored[OF assms(1) reaches_step.hyps(1)] reaches_step.hyps(2)]
  show ?case .
qed

text \<open>Below a FAILED task every task is still PENDING or is SKIPPED, and a SKIPPED task is in
  the failed set with an error that names a FAILED task above it.\<close>

lemma below_failed:
  assumes l: "load_and_run opts ts = Some (Inr s0)" and r: "reaches X s0 s"
    and f: "status_of s f = Some FAILED" and e: "(f, d) \<in> (dependency_edges ts)\<^sup>+"
  shows "status_of s d = Some PENDING
         \<or> status_of s d = Some SKIPPED \<and> d \<in> set (failedTasks s)
           \<and> (\<exists>g. (g, d) \<in> (dependency_edges ts)\<^sup>+ \<and> status_of s g = Some FAILED
                   \<and> error_of s d = Some (skip_message g))"
proof -
  note inv = reaches_skip_inv[OF l r]
  note g = reaches_graph(1)[OF l r]
  from e g have e': "(f, d) \<in> (edges (dependents s))\<^sup>+" by simp
  from descendant_stored[OF edge_stored[OF l r] e'] obtain st where st: "status_of s d = Some st"
    by auto
  from inv have c: "consistent s" and n: "skipped_named s" by (simp_all add: skip_inv_def)
  from below_failed_no_process[OF inv f e'] consistentD(1)[OF c st]
  have "st = PENDING \<or> st = SKIPPED" by simp
  then show ?thesis
  proof
    assume "st = PENDING"
    with st show ?thesis by simp
  next
    assume "st = SKIPPED"
    with st have s: "status_of s d = Some SKIPPED" by simp
    with n g have "d \<in> set (failedTasks s)
        \<and> (\<exists>g. (g, d) \<in> (dependency_edges ts)\<^sup>+ \<and> status_of s g = Some FAILED
                \<and> error_of s d = Some (skip_message g))"
      by (simp add: skipped_named_def)
    with s show ?thesis by simp
  qed
qed

lemma settled_status:
  assumes "settled s" and "status_of s d = Some st"
  shows "st \<noteq> PENDING \<and> st \<noteq> QUEUED \<and> st \<noteq> RUNNING"
proof -
  from assms(2) obtain t where "map_of (tasks s) d = Some t" "t_status t = st"
    by (auto simp: status_of_def)
  then have "(d, t) \<in> set (tasks s)" by (auto dest: map_of_SomeD)
  with assms(1) \<open>t_status t = st\<close> show ?thesis by (auto simp: settled_def list_all_iff)
qed

section \<open>Cycles and failures\<close>



text \<open>
  C5, amended. In every run of a loaded plan, under every executor and every interleaving:
  \<^item> at every state that passes the test of \<open>waitForCompletion\<close>, every transitive dependent of
    a FAILED task, over the dependencies that the plan declares among its tasks, is SKIPPED
    and in the failed set, so that \<open>run\<close> throws, and its error is
    \<open>Skipped due to failed dependency: \<close> followed by the id of a FAILED task that it depends
    on, directly or not;
  \<^item> a task becomes FAILED only by a step of its own process, which then stands before the
    call of \<open>skipDependentTasks\<close> for this task; and the step that runs this call gives exactly
    the transitive dependents of the task the status SKIPPED and the error
    \<open>Skipped due to failed dependency: \<close> followed by the id of the task, adds exactly them to
    the failed set, and leaves every other task as it is.

  So the error of a skipped task names the failed task whose \<open>skipDependentTasks\<close> ran last
  over it, not every failed task above it. For the plan \<open>p\<close>, \<open>c\<close> depending on \<open>p\<close>,
  \<open>g\<close> depending on \<open>c\<close>, with one attempt each and an executor that always throws, the run
  reaches a state that passes the test of \<open>waitForCompletion\<close>, and every such state has one
  FAILED, two SKIPPED and no COMPLETED task, \<open>c\<close> with the error
  \<open>Skipped due to failed dependency: p\<close>, and \<open>run\<close> throws \<open>3 task(s) failed: p, c, g\<close>.
\<close>

theorem skip_marks_the_dependents_of_the_failed_task:
  "(\<forall>opts ts s0 X s f d.
       load_and_run opts ts = Some (Inr s0) \<and> reaches X s0 s \<and> settled s
       \<and> status_of s f = Some FAILED \<and> (f, d) \<in> (dependency_edges ts)\<^sup>+
       \<longrightarrow> status_of s d = Some SKIPPED \<and> d \<in> set (failedTasks s) \<and> run_finish s \<noteq> None
         \<and> (\<exists>g. (g, d) \<in> (dependency_edges ts)\<^sup>+ \<and> status_of s g = Some FAILED
                 \<and> error_of s d = Some (skip_message g)))
   \<and> (\<forall>opts ts s0 X s pid s'.
       load_and_run opts ts = Some (Inr s0) \<and> reaches X s0 s \<and> step X s pid = Some s'
       \<longrightarrow> (\<forall>k. status_of s' k = Some FAILED \<and> status_of s k \<noteq> Some FAILED
                  \<longrightarrow> p_task (procs s' ! pid) = k \<and> p_pc (procs s' ! pid) = Failing)
         \<and> (p_pc (procs s ! pid) = Failing
              \<longrightarrow> (\<forall>d. if (p_task (procs s ! pid), d) \<in> (dependency_edges ts)\<^sup>+
                       then (\<exists>t. map_of (tasks s) d = Some t
                               \<and> map_of (tasks s') d
                                   = Some (t\<lparr>t_status := SKIPPED,
                                            t_error := Some (skip_message (p_task (procs s ! pid)))\<rparr>))
                            \<and> d \<in> set (failedTasks s')
                       else map_of (tasks s') d = map_of (tasks s) d
                            \<and> (d \<in> set (failedTasks s') \<longleftrightarrow> d \<in> set (failedTasks s)))))
   \<and> load_and_run (scheduler_options 3 1)
        [plain_task ''p'' [], plain_task ''c'' [''p''], plain_task ''g'' [''c'']]
      = Some (Inr cascade_start)
   \<and> reaches always_throws cascade_start (after_steps always_throws cascade_start 5)
   \<and> settled (after_steps always_throws cascade_start 5)
   \<and> (\<forall>s. reaches always_throws cascade_start s \<and> settled s
         \<longrightarrow> summary s FAILED = 1 \<and> summary s SKIPPED = 2 \<and> summary s COMPLETED = 0
           \<and> error_of s ''c'' = Some ''Skipped due to failed dependency: p''
           \<and> run_finish s = Some ''3 task(s) failed: p, c, g'')"
proof -
  have whole_run: "status_of s d = Some SKIPPED \<and> d \<in> set (failedTasks s) \<and> run_finish s \<noteq> None
         \<and> (\<exists>g. (g, d) \<in> (dependency_edges ts)\<^sup>+ \<and> status_of s g = Some FAILED
                 \<and> error_of s d = Some (skip_message g))"
    if l: "load_and_run opts ts = Some (Inr s0)" and r: "reaches X s0 s" and e: "settled s"
      and f: "status_of s f = Some FAILED" and d: "(f, d) \<in> (dependency_edges ts)\<^sup>+"
    for opts ts s0 X s f d
  proof -
    from below_failed[OF l r f d] settled_status[OF e, of d PENDING]
    have b: "status_of s d = Some SKIPPED \<and> d \<in> set (failedTasks s)
           \<and> (\<exists>g. (g, d) \<in> (dependency_edges ts)\<^sup>+ \<and> status_of s g = Some FAILED
                   \<and> error_of s d = Some (skip_message g))"
      by blast
    then have "failedTasks s \<noteq> []" by auto
    then have "run_finish s \<noteq> None" by (simp add: run_finish_def)
    with b show ?thesis by simp
  qed
  have general: "(\<forall>k. status_of s' k = Some FAILED \<and> status_of s k \<noteq> Some FAILED
                  \<longrightarrow> p_task (procs s' ! pid) = k \<and> p_pc (procs s' ! pid) = Failing)
         \<and> (p_pc (procs s ! pid) = Failing
              \<longrightarrow> (\<forall>d. if (p_task (procs s ! pid), d) \<in> (dependency_edges ts)\<^sup>+
                       then (\<exists>t. map_of (tasks s) d = Some t
                               \<and> map_of (tasks s') d
                                   = Some (t\<lparr>t_status := SKIPPED,
                                            t_error := Some (skip_message (p_task (procs s ! pid)))\<rparr>))
                            \<and> d \<in> set (failedTasks s')
                       else map_of (tasks s') d = map_of (tasks s) d
                            \<and> (d \<in> set (failedTasks s') \<longleftrightarrow> d \<in> set (failedTasks s))))"
    if l: "load_and_run opts ts = Some (Inr s0)" and r: "reaches X s0 s"
      and st: "step X s pid = Some s'" for opts ts s0 X s pid s'
  proof (intro conjI allI impI)
    fix k assume "status_of s' k = Some FAILED \<and> status_of s k \<noteq> Some FAILED"
    with becomes_FAILED[OF st, of k]
    show "p_task (procs s' ! pid) = k" and "p_pc (procs s' ! pid) = Failing" by simp_all
  next
    fix d assume f: "p_pc (procs s ! pid) = Failing"
    show "if (p_task (procs s ! pid), d) \<in> (dependency_edges ts)\<^sup>+
          then (\<exists>t. map_of (tasks s) d = Some t
                  \<and> map_of (tasks s') d
                      = Some (t\<lparr>t_status := SKIPPED,
                               t_error := Some (skip_message (p_task (procs s ! pid)))\<rparr>))
               \<and> d \<in> set (failedTasks s')
          else map_of (tasks s') d = map_of (tasks s) d
               \<and> (d \<in> set (failedTasks s') \<longleftrightarrow> d \<in> set (failedTasks s))"
      using failing_step[OF l r st f, of d] by auto
  qed
  let ?S = "after_steps always_throws cascade_start ` {0, 1, 2, 3, 4, 5}"
  have start: "cascade_start \<in> ?S" by (simp add: after_steps_def)
  have closed: "t' \<in> ?S" if "t \<in> ?S" and "step always_throws t pid = Some t'" for t pid t'
  proof -
    from that(1) cascade_procs have "length (procs t) = 1" by auto
    with that(2) step_out_of_range[of t pid always_throws] have "pid = 0"
      by (cases pid) auto
    with that cascade_steps show ?thesis by auto
  qed
  have outcome: "summary s FAILED = 1 \<and> summary s SKIPPED = 2 \<and> summary s COMPLETED = 0
           \<and> error_of s ''c'' = Some ''Skipped due to failed dependency: p''
           \<and> run_finish s = Some ''3 task(s) failed: p, c, g''"
    if "reaches always_throws cascade_start s" and "settled s" for s
  proof -
    have "s \<in> ?S"
      by (rule reaches_closed[where S = ?S, OF that(1) start]) (rule closed)
    with cascade_outcome that(2) show ?thesis by auto
  qed
  from cascade_ends have ends: "reaches always_throws cascade_start (after_steps always_throws cascade_start 5)"
    "settled (after_steps always_throws cascade_start 5)"
    by (auto intro: after_steps_reaches)
  from whole_run have w: "\<forall>opts ts s0 X s f d.
       load_and_run opts ts = Some (Inr s0) \<and> reaches X s0 s \<and> settled s
       \<and> status_of s f = Some FAILED \<and> (f, d) \<in> (dependency_edges ts)\<^sup>+
       \<longrightarrow> status_of s d = Some SKIPPED \<and> d \<in> set (failedTasks s) \<and> run_finish s \<noteq> None
         \<and> (\<exists>g. (g, d) \<in> (dependency_edges ts)\<^sup>+ \<and> status_of s g = Some FAILED
                 \<and> error_of s d = Some (skip_message g))"
    by blast
  from general have g: "\<forall>opts ts s0 X s pid s'.
       load_and_run opts ts = Some (Inr s0) \<and> reaches X s0 s \<and> step X s pid = Some s'
       \<longrightarrow> (\<forall>k. status_of s' k = Some FAILED \<and> status_of s k \<noteq> Some FAILED
                  \<longrightarrow> p_task (procs s' ! pid) = k \<and> p_pc (procs s' ! pid) = Failing)
         \<and> (p_pc (procs s ! pid) = Failing
              \<longrightarrow> (\<forall>d. if (p_task (procs s ! pid), d) \<in> (dependency_edges ts)\<^sup>+
                       then (\<exists>t. map_of (tasks s) d = Some t
                               \<and> map_of (tasks s') d
                                   = Some (t\<lparr>t_status := SKIPPED,
                                            t_error := Some (skip_message (p_task (procs s ! pid)))\<rparr>))
                            \<and> d \<in> set (failedTasks s')
                       else map_of (tasks s') d = map_of (tasks s) d
                            \<and> (d \<in> set (failedTasks s') \<longleftrightarrow> d \<in> set (failedTasks s))))"
    by blast
  from outcome have o: "\<forall>s. reaches always_throws cascade_start s \<and> settled s
         \<longrightarrow> summary s FAILED = 1 \<and> summary s SKIPPED = 2 \<and> summary s COMPLETED = 0
           \<and> error_of s ''c'' = Some ''Skipped due to failed dependency: p''
           \<and> run_finish s = Some ''3 task(s) failed: p, c, g''"
    by blast
  from w g cascade_loaded ends o show ?thesis by (intro conjI)
qed

theorem skip_marks_the_dependents_of_the_failed_task_witness:
  "load_and_run (scheduler_options 3 1)
     [plain_task ''p'' [], plain_task ''c'' [''p''], plain_task ''g'' [''c'']]
   = Some (Inr cascade_start)
   \<and> reaches always_throws cascade_start (after_steps always_throws cascade_start 5)
   \<and> settled (after_steps always_throws cascade_start 5)
   \<and> status_of (after_steps always_throws cascade_start 5) ''p'' = Some FAILED
   \<and> (''p'', ''g'')
       \<in> (dependency_edges
            [plain_task ''p'' [], plain_task ''c'' [''p''], plain_task ''g'' [''c'']])\<^sup>+
   \<and> status_of (after_steps always_throws cascade_start 5) ''g'' = Some SKIPPED
   \<and> ''g'' \<in> set (failedTasks (after_steps always_throws cascade_start 5))
   \<and> summary (after_steps always_throws cascade_start 5) FAILED = 1
   \<and> summary (after_steps always_throws cascade_start 5) SKIPPED = 2
   \<and> summary (after_steps always_throws cascade_start 5) COMPLETED = 0
   \<and> error_of (after_steps always_throws cascade_start 5) ''c''
       = Some ''Skipped due to failed dependency: p''
   \<and> run_finish (after_steps always_throws cascade_start 5) = Some ''3 task(s) failed: p, c, g''"
proof -
  let ?plan = "[plain_task ''p'' [], plain_task ''c'' [''p''], plain_task ''g'' [''c'']]"
  let ?s = "after_steps always_throws cascade_start 5"
  note whole_run = skip_marks_the_dependents_of_the_failed_task[THEN conjunct1, rule_format]
  note scenario = skip_marks_the_dependents_of_the_failed_task[THEN conjunct2, THEN conjunct2]
  from scenario have l: "load_and_run (scheduler_options 3 1) ?plan = Some (Inr cascade_start)"
    and r: "reaches always_throws cascade_start ?s" and e: "settled ?s"
    and o: "summary ?s FAILED = 1 \<and> summary ?s SKIPPED = 2 \<and> summary ?s COMPLETED = 0
           \<and> error_of ?s ''c'' = Some ''Skipped due to failed dependency: p''
           \<and> run_finish ?s = Some ''3 task(s) failed: p, c, g''"
    by simp_all
  have pc: "(''p'', ''c'') \<in> dependency_edges ?plan"
    by (simp add: dependency_edges_def plain_task_def)
  have cg: "(''c'', ''g'') \<in> dependency_edges ?plan"
    by (simp add: dependency_edges_def plain_task_def)
  from pc cg have pg: "(''p'', ''g'') \<in> (dependency_edges ?plan)\<^sup>+"
    by (rule trancl_into_trancl[OF r_into_trancl])
  have f: "status_of ?s ''p'' = Some FAILED" by (rule cascade_failed)
  from whole_run[of "scheduler_options 3 1" ?plan cascade_start always_throws ?s "''p''" "''g''"]
    l r e f pg
  have "status_of ?s ''g'' = Some SKIPPED \<and> ''g'' \<in> set (failedTasks ?s)" by simp
  with l r e f pg o show ?thesis by simp
qed

text \<open>
  C5 as stated fails when a task depends on two tasks that fail: with \<open>a\<close> and \<open>b\<close> both
  FAILED, their dependent \<open>c\<close> is SKIPPED with the error naming \<open>b\<close>, whose failure came last,
  and not \<open>a\<close>.
\<close>

theorem two_failed_parents_last_one_named:
  "load_and_run (scheduler_options 1 1)
     [plain_task ''a'' [], plain_task ''b'' [], plain_task ''c'' [''a'', ''b'']]
   = Some (Inr two_parents_start)
   \<and> (case exec_schedule always_throws two_parents_start [0, 0, 0, 0, 0, 1, 1, 1, 1, 1] of
        None \<Rightarrow> False
      | Some s \<Rightarrow>
          settled s
        \<and> status_of s ''a'' = Some FAILED
        \<and> status_of s ''b'' = Some FAILED
        \<and> ''c'' \<in> set (children (dependents s) ''a'')
        \<and> status_of s ''c'' = Some SKIPPED
        \<and> error_of s ''c'' = Some ''Skipped due to failed dependency: b''
        \<and> error_of s ''c'' \<noteq> Some ''Skipped due to failed dependency: a'')"
  by code_simp

section \<open>Properties of the error classifier\<close>

lemma scan_rules_first_match:
  "\<forall>e \<in> set pre. \<not> first_pattern (patterns e) s n \<Longrightarrow> first_pattern (patterns r) s n
   \<Longrightarrow> scan_rules (pre @ r # post) s n = category r"
  by (induction pre) auto

text \<open>
  C9. For every exit code, \<open>classify\<close> puts the output
  \<open>TypeError: Cannot read property 'x' of undefined\<close> in the category \<open>type\<close> and not in
  \<open>runtime\<close>: no pattern of the \<open>syntax\<close> rule matches it, the first pattern of the \<open>type\<close>
  rule does, and the rules are scanned in the declared order syntax, type, import, runtime,
  assertion, timeout, permission, resource, network.
\<close>

theorem classify_type_error_is_type:
  "ce_category (classify s7_stderr exitCode) = CatType
   \<and> ce_category (classify s7_stderr exitCode) \<noteq> CatRuntime
   \<and> \<not> first_pattern (patterns (ERROR_PATTERNS ! 0)) s7_stderr (toLowerCase s7_stderr)
   \<and> first_pattern (patterns (ERROR_PATTERNS ! 1)) s7_stderr (toLowerCase s7_stderr)
   \<and> map category ERROR_PATTERNS =
       [CatSyntax, CatType, CatImport, CatRuntime, CatAssertion, CatTimeout, CatPermission,
        CatResource, CatNetwork]"
proof -
  have syntax_fails: "\<not> first_pattern (patterns (ERROR_PATTERNS ! 0)) s7_stderr (toLowerCase s7_stderr)"
    by code_simp
  have type_matches: "first_pattern (patterns (ERROR_PATTERNS ! 1)) s7_stderr (toLowerCase s7_stderr)"
    by code_simp
  have order: "map category ERROR_PATTERNS =
       [CatSyntax, CatType, CatImport, CatRuntime, CatAssertion, CatTimeout, CatPermission,
        CatResource, CatNetwork]"
    by (simp add: ERROR_PATTERNS_def)
  obtain r0 r1 rest where tbl: "ERROR_PATTERNS = r0 # r1 # rest"
    by (simp add: ERROR_PATTERNS_def)
  from order have c1: "category r1 = CatType" unfolding tbl by simp
  from syntax_fails type_matches
  have "scan_rules ERROR_PATTERNS s7_stderr (toLowerCase s7_stderr) = category r1"
    unfolding tbl
    using scan_rules_first_match [of "[r0]" s7_stderr "toLowerCase s7_stderr" r1 rest] by simp
  with c1 have "ce_category (classify s7_stderr exitCode) = CatType"
    by (simp add: classify_def)
  with syntax_fails type_matches order show ?thesis by simp
qed

end
